theory Spec2Isabelle
  imports Main "HOL-Library.Multiset" "HOL-Library.Log_Nat"
begin

section \<open>Data model of buildAndRelease.js\<close>

text \<open>
  Package names are strings.  A JSON value, as \<open>JSON.parse\<close> returns it, is
  \<open>null\<close>, a boolean, a number, a string, an array or an object; an object is
  the list of its own properties in the order \<open>Object.entries\<close> lists them,
  with distinct keys.  The counts object that the script accumulates maps
  package names to the \<open>downloads\<close> value the API returned.
\<close>

type_synonym pkg = string

datatype json =
    JNull
  | JBool bool
  | JNum nat
  | JStr string
  | JArr "json list"
  | JObj "(string \<times> json) list"

type_synonym counts = "pkg \<rightharpoonup> json"

text \<open>
  \<open>counts[key] = value\<close> on the plain object \<open>counts\<close>: an own property is set,
  except for the key \<open>__proto__\<close>, which is the accessor inherited from
  \<open>Object.prototype\<close> and leaves the object without a property of that name.
\<close>

definition set_property :: "counts \<Rightarrow> string \<Rightarrow> json \<Rightarrow> counts" where
  "set_property c key v = (if key = ''__proto__'' then c else c(key \<mapsto> v))"

text \<open>The index of an array element or of a character, as a property name.\<close>

fun decimal :: "nat \<Rightarrow> string" where
  "decimal n =
     (if n < 10 then [''0123456789'' ! n]
      else decimal (n div 10) @ [''0123456789'' ! (n mod 10)])"

declare decimal.simps [simp del]

text \<open>
  \<open>Object.entries(value)\<close>: a \<open>TypeError\<close> for \<open>null\<close> (\<open>None\<close>); the properties of
  an object; the elements of an array and the characters of a string under
  their indices; nothing for a boolean or a number.
\<close>

fun Object_entries :: "json \<Rightarrow> (string \<times> json) list option" where
  "Object_entries JNull = None"
| "Object_entries (JBool b) = Some []"
| "Object_entries (JNum n) = Some []"
| "Object_entries (JStr s) = Some (zip (map decimal [0..<length s]) (map (\<lambda>c. JStr [c]) s))"
| "Object_entries (JArr xs) = Some (zip (map decimal [0..<length xs]) xs)"
| "Object_entries (JObj entries) = Some entries"

text \<open>
  The object written to \<open>state.json\<close>.  Arrays are lists in index order:
  \<open>push\<close> appends at the end, \<open>pop\<close> removes the last element.  The field
  \<open>published\<close> is absent (falsy) until Scenario 4 sets it.
\<close>

record state =
  countsFilesSoFar :: nat
  singlePackages :: "pkg list"
  unscopedPackageBatches :: "pkg list list"
  status403Packages :: "pkg list"
  published :: bool

definition BULK_QUERY_BATCH_SIZE :: nat where
  "BULK_QUERY_BATCH_SIZE = 128"

definition MAX_SIMULTANEOUS_REQUESTS :: nat where
  "MAX_SIMULTANEOUS_REQUESTS = 20"

definition MIN_REQUEST_INTERVAL_MS :: int where
  "MIN_REQUEST_INTERVAL_MS = 500"

definition MAX_REQUEST_ERRORS :: nat where
  "MAX_REQUEST_ERRORS = 80"

section \<open>Scenario 1: the initial partition of the package names\<close>

text \<open>\<open>name.split('/')\<close>: the segments between the separators, never empty.\<close>

fun split_on :: "char \<Rightarrow> string \<Rightarrow> string list" where
  "split_on c [] = [[]]"
| "split_on c (x # xs) =
     (if x = c then [] # split_on c xs
      else (case split_on c xs of
              [] \<Rightarrow> [[x]]
            | w # ws \<Rightarrow> (x # w) # ws))"

text \<open>
  The filter of Scenario 1:
  \<open>!name.split('/').includes('.') && !name.split('/').includes('..')\<close>.
\<close>

definition addressable :: "pkg \<Rightarrow> bool" where
  "addressable name \<longleftrightarrow>
     ''.'' \<notin> set (split_on CHR ''/'' name) \<and> ''..'' \<notin> set (split_on CHR ''/'' name)"

text \<open>\<open>name.includes('/')\<close>\<close>

definition scoped :: "pkg \<Rightarrow> bool" where
  "scoped name \<longleftrightarrow> CHR ''/'' \<in> set name"

text \<open>
  The batching loop: \<open>batch\<close> is the batch being filled, \<open>done\<close> the batches
  pushed so far.  It returns both at the end of the loop.
\<close>

fun batch_loop :: "pkg list \<Rightarrow> pkg list \<Rightarrow> pkg list list \<Rightarrow> pkg list \<times> pkg list list" where
  "batch_loop [] batch done = (batch, done)"
| "batch_loop (p # ps) batch done =
     (let batch' = batch @ [p]
      in if length batch' = BULK_QUERY_BATCH_SIZE
         then batch_loop ps [] (done @ [batch'])
         else batch_loop ps batch' done)"

definition make_batches :: "pkg list \<Rightarrow> pkg list list" where
  "make_batches names =
     (case batch_loop names [] [] of
        (batch, done) \<Rightarrow> if length batch \<noteq> 0 then done @ [batch] else done)"

definition initial_state :: "pkg list \<Rightarrow> state" where
  "initial_state names =
     (let packageNames = filter addressable names
      in \<lparr> countsFilesSoFar = 0,
           singlePackages = filter scoped packageNames,
           unscopedPackageBatches = make_batches (filter (\<lambda>name. \<not> scoped name) packageNames),
           status403Packages = [],
           published = False \<rparr>)"

section \<open>Scenario 2: the shared variables of the fetch phase\<close>

text \<open>
  What \<open>fetch\<close> gives back: a rejected promise (no response at all), or a
  response with its status, its \<open>Retry-After\<close> header and its body.  The header
  is absent, is the text of a whole number of seconds (the download endpoint
  sends nothing else), or is some other text.  The body is what \<open>resp.json()\<close>
  settles with: the promise is rejected when the body is not JSON text (an
  HTML error page, say, or a body cut short), and fulfilled with the parsed
  value otherwise.
\<close>

datatype header_value = Absent | Numeric int | NonNumeric

datatype body = NotJson | Json json

datatype fetch_result = NetworkError | Http nat header_value body

text \<open>
  \<open>Number(resp.headers.get('Retry-After'))\<close>: \<open>get\<close> returns \<open>null\<close> for an absent
  header and \<open>Number(null)\<close> is 0; a text that is no number gives \<open>NaN\<close>, here
  \<open>None\<close>.
\<close>

fun Number_of :: "header_value \<Rightarrow> int option" where
  "Number_of Absent = Some 0"
| "Number_of (Numeric n) = Some n"
| "Number_of NonNumeric = None"

text \<open>A unit of work popped from one of the two queues.\<close>

datatype work = Batch "pkg list" | Single pkg

text \<open>
  Where a fetcher thread is suspended: at \<open>await throttlingWait\<close>, at the timer
  inside the cool-down loop (with the time the timer is due), at
  \<open>await fetch(...)\<close>, or at the \<open>await\<close> of its handler in the thread loop after
  the handler returned; or its loop has ended.
\<close>

datatype pc =
    AwaitThrottle work
  | AwaitCooldown work int
  | AwaitResponse work
  | Returned
  | Finished

record thread =
  pc :: pc
  throttlingWait :: "int option"

text \<open>
  The variables shared by all threads, the threads, the clock (the time of the
  latest event, in milliseconds) and the list of the requests sent so far
  (thread, start time and unit of work of every call of \<open>fetch\<close>).
\<close>

record pool =
  st :: state
  counts :: counts
  queriesRemaining :: int
  retryAfterTimestampMs :: int
  gotRateLimited :: bool
  nRequestErrors :: nat
  threads :: "thread list"
  clock :: int
  requests :: "(nat \<times> int \<times> work) list"

text \<open>
  How a handler can end the fetch phase instead of returning: by
  \<open>process.exit(1)\<close>, which ends the process at once, or by an exception that
  nothing catches.  A handler gives \<open>Inl\<close> of that, or \<open>Inr\<close> of the pool it
  leaves when it returns.
\<close>

datatype halt = Exit1 | Thrown

text \<open>\<open>recordUnexpectedError\<close>\<close>

definition recordUnexpectedError :: "pool \<Rightarrow> halt + pool" where
  "recordUnexpectedError p =
     (let n = nRequestErrors p + 1
      in if n \<ge> MAX_REQUEST_ERRORS then Inl Exit1 else Inr (p\<lparr>nRequestErrors := n\<rparr>))"

definition push_batch :: "pkg list \<Rightarrow> pool \<Rightarrow> pool" where
  "push_batch batch p =
     p\<lparr>st := (st p)\<lparr>unscopedPackageBatches := unscopedPackageBatches (st p) @ [batch]\<rparr>\<rparr>"

definition push_single :: "pkg \<Rightarrow> pool \<Rightarrow> pool" where
  "push_single name p =
     p\<lparr>st := (st p)\<lparr>singlePackages := singlePackages (st p) @ [name]\<rparr>\<rparr>"

definition push_403 :: "pkg \<Rightarrow> pool \<Rightarrow> pool" where
  "push_403 name p =
     p\<lparr>st := (st p)\<lparr>status403Packages := status403Packages (st p) @ [name]\<rparr>\<rparr>"

text \<open>
  \<open>x?.downloads\<close> followed by the test \<open>!= null\<close>: a value with a \<open>downloads\<close>
  property that is neither \<open>null\<close> nor \<open>undefined\<close>.
\<close>

fun downloads_of :: "json \<Rightarrow> json option" where
  "downloads_of (JObj entries) =
     (case map_of entries ''downloads'' of
        None \<Rightarrow> None
      | Some JNull \<Rightarrow> None
      | Some v \<Rightarrow> Some v)"
| "downloads_of _ = None"

text \<open>The body of the loop over the entries of a bulk response.\<close>

definition record_entry :: "counts \<Rightarrow> string \<times> json \<Rightarrow> counts" where
  "record_entry c e =
     (case downloads_of (snd e) of None \<Rightarrow> c | Some d \<Rightarrow> set_property c (fst e) d)"

text \<open>
  \<open>fetchCountsForUnscopedBatch\<close>, from the point where \<open>throttledFetch\<close> has
  settled with \<open>r\<close>.  The batch has been popped by the caller.  The \<open>try\<close>
  block holds the call of \<open>throttledFetch\<close> only: when \<open>await resp.json()\<close> or
  \<open>Object.entries\<close> throws, nothing catches it.
\<close>

definition fetchCountsForUnscopedBatch :: "pkg list \<Rightarrow> fetch_result \<Rightarrow> pool \<Rightarrow> halt + pool" where
  "fetchCountsForUnscopedBatch batch r p =
     (case r of
        NetworkError \<Rightarrow> recordUnexpectedError (push_batch batch p)
      | Http status h body \<Rightarrow>
          if status = 400 \<or> status = 403 then
            (if length batch \<le> 3 then Inr (foldl (\<lambda>q name. push_single name q) p batch)
             else
               (let splitPoint = length batch div 2
                in Inr (push_batch (drop splitPoint batch)
                         (push_batch (take splitPoint batch) p))))
          else if status \<noteq> 200 then recordUnexpectedError (push_batch batch p)
          else
            (case body of
               NotJson \<Rightarrow> Inl Thrown
             | Json respJson \<Rightarrow>
                 (case Object_entries respJson of
                    None \<Rightarrow> Inl Thrown
                  | Some entries \<Rightarrow> Inr (p\<lparr>counts := foldl record_entry (counts p) entries\<rparr>))))"

text \<open>
  \<open>fetchCountForSinglePackage\<close>, likewise; reading \<open>downloads\<close> of \<open>null\<close>
  throws.
\<close>

definition fetchCountForSinglePackage :: "pkg \<Rightarrow> fetch_result \<Rightarrow> pool \<Rightarrow> halt + pool" where
  "fetchCountForSinglePackage packageName r p =
     (case r of
        NetworkError \<Rightarrow> recordUnexpectedError (push_single packageName p)
      | Http status h body \<Rightarrow>
          if status = 403 then Inr (push_403 packageName p)
          else if status = 404 then Inr p
          else if status \<noteq> 200 then recordUnexpectedError (push_single packageName p)
          else
            (case body of
               NotJson \<Rightarrow> Inl Thrown
             | Json respJson \<Rightarrow>
                 if respJson = JNull then Inl Thrown
                 else
                   (case downloads_of respJson of
                      None \<Rightarrow> Inr p
                    | Some d \<Rightarrow> Inr (p\<lparr>counts := set_property (counts p) packageName d\<rparr>))))"

definition handle :: "work \<Rightarrow> fetch_result \<Rightarrow> pool \<Rightarrow> halt + pool" where
  "handle w r p =
     (case w of
        Batch batch \<Rightarrow> fetchCountsForUnscopedBatch batch r p
      | Single packageName \<Rightarrow> fetchCountForSinglePackage packageName r p)"

section \<open>The throttled fetcher\<close>

definition set_pc :: "nat \<Rightarrow> pc \<Rightarrow> pool \<Rightarrow> pool" where
  "set_pc i c p = p\<lparr>threads := (threads p)[i := (threads p ! i)\<lparr>pc := c\<rparr>]\<rparr>"

text \<open>
  \<open>throttledFetch\<close> of thread \<open>i\<close> from the \<open>while\<close> loop on, entered at time \<open>t\<close>:
  while the shared deadline lies in the future, sleep until it (and test again
  on waking); otherwise arm the timer for the thread's next request and call
  \<open>fetch\<close>.
\<close>

definition cooldown_loop :: "nat \<Rightarrow> work \<Rightarrow> int \<Rightarrow> pool \<Rightarrow> pool" where
  "cooldown_loop i w t p =
     (if retryAfterTimestampMs p - t > 0
      then set_pc i (AwaitCooldown w (t + (retryAfterTimestampMs p - t))) p
      else p\<lparr>threads := (threads p)[i :=
                 \<lparr>pc = AwaitResponse w, throttlingWait = Some (t + MIN_REQUEST_INTERVAL_MS)\<rparr>],
             requests := requests p @ [(i, t, w)]\<rparr>)"

text \<open>
  The branch \<open>resp.status == 429\<close> of \<open>throttledFetch\<close>, at time \<open>t\<close>: the deadline
  is pushed back and \<open>throttledFetch\<close> calls itself with the same arguments,
  which suspends it at \<open>await throttlingWait\<close> again.
\<close>

definition rate_limited :: "nat \<Rightarrow> work \<Rightarrow> int \<Rightarrow> header_value \<Rightarrow> pool \<Rightarrow> pool" where
  "rate_limited i w t h p =
     (let p1 = p\<lparr>gotRateLimited := True\<rparr>;
          retryAfter = Number_of h;
          p2 = (case retryAfter of
                  None \<Rightarrow>
                    p1\<lparr>retryAfterTimestampMs :=
                         max (retryAfterTimestampMs p1) (60 * 60 * 1000 + t)\<rparr>
                | Some n \<Rightarrow>
                    if n \<noteq> 0
                    then p1\<lparr>retryAfterTimestampMs :=
                              max (retryAfterTimestampMs p1) (n * 1000 + t)\<rparr>
                    else p1\<lparr>retryAfterTimestampMs :=
                              max (retryAfterTimestampMs p1) (60 * 60 * 1000 + t)\<rparr>)
      in set_pc i (AwaitThrottle w) p2)"

text \<open>
  What \<open>throttledFetch\<close> does when \<open>fetch\<close> settles with \<open>r\<close> at time \<open>t\<close>: it
  either goes round again (\<open>Inl\<close>, the pool after the 429 branch) or settles
  itself with \<open>r\<close> (\<open>Inr\<close>), which its caller, the handler, then sees.
\<close>

definition throttledFetch_settle ::
  "nat \<Rightarrow> work \<Rightarrow> int \<Rightarrow> fetch_result \<Rightarrow> pool \<Rightarrow> pool + fetch_result" where
  "throttledFetch_settle i w t r p =
     (case r of
        NetworkError \<Rightarrow> Inr r
      | Http status h body \<Rightarrow>
          if status = 429 then Inl (rate_limited i w t h p) else Inr r)"

section \<open>The fetcher threads\<close>

text \<open>
  The head of the loop of \<open>startFetcherThread\<close>: test the condition, pop a unit
  of work (a batch if there is one) and call its handler, which runs up to
  \<open>await throttlingWait\<close>.  The loop condition makes the final
  \<open>else throw 'unreachable'\<close> of the source dead code.
\<close>

definition loop_head :: "pool \<Rightarrow> pc \<times> pool" where
  "loop_head p =
     (let s = st p
      in if queriesRemaining p \<ge> 0 \<and>
            (length (unscopedPackageBatches s) > 0 \<or> length (singlePackages s) > 0)
         then
           (if length (unscopedPackageBatches s) > 0
            then (AwaitThrottle (Batch (last (unscopedPackageBatches s))),
                  p\<lparr>st := s\<lparr>unscopedPackageBatches := butlast (unscopedPackageBatches s)\<rparr>\<rparr>)
            else (AwaitThrottle (Single (last (singlePackages s))),
                  p\<lparr>st := s\<lparr>singlePackages := butlast (singlePackages s)\<rparr>\<rparr>))
         else (Finished, p))"

text \<open>
  The events of the single JavaScript thread, each with the time it happens
  at: a suspended fetcher thread is resumed (a timer fired, or an awaited
  promise was already settled), or the \<open>fetch\<close> of a thread settles.  Between
  two events no code runs, time does not go back, and a timer does not fire
  before it is due; an event that cannot happen in the pool is \<open>Disabled\<close>.
  A response that is not a 429 is handed to the handler at once:
  \<open>throttledFetch\<close> returning and the handler going on touch no shared variable
  in between, and for a 200 neither does the handler before \<open>resp.json()\<close>
  settles.  When the handler has returned, the thread is resumed in its loop,
  where it counts the query and goes to the head of the loop.  When the
  handler throws, the promise of the thread is rejected, and with it the
  \<open>Promise.all\<close> that the top level of the script awaits: the fetch phase is
  over (\<open>Threw\<close>).
\<close>

datatype event = Resume nat int | Response nat int fetch_result

datatype step_result = Disabled | Running pool | ProcessExit | Threw

definition timer_fired :: "int option \<Rightarrow> int \<Rightarrow> bool" where
  "timer_fired tw t = (case tw of None \<Rightarrow> True | Some due \<Rightarrow> due \<le> t)"

fun step :: "event \<Rightarrow> pool \<Rightarrow> step_result" where
  "step (Resume i t) p =
     (if i < length (threads p) \<and> clock p \<le> t then
        (case pc (threads p ! i) of
           AwaitThrottle w \<Rightarrow>
             if timer_fired (throttlingWait (threads p ! i)) t
             then Running (cooldown_loop i w t (p\<lparr>clock := t\<rparr>))
             else Disabled
         | AwaitCooldown w due \<Rightarrow>
             if due \<le> t then Running (cooldown_loop i w t (p\<lparr>clock := t\<rparr>)) else Disabled
         | Returned \<Rightarrow>
             (case loop_head (p\<lparr>clock := t, queriesRemaining := queriesRemaining p - 1\<rparr>) of
                (c, p') \<Rightarrow> Running (set_pc i c p'))
         | AwaitResponse w \<Rightarrow> Disabled
         | Finished \<Rightarrow> Disabled)
      else Disabled)"
| "step (Response i t r) p =
     (if i < length (threads p) \<and> clock p \<le> t then
        (case pc (threads p ! i) of
           AwaitResponse w \<Rightarrow>
             (case throttledFetch_settle i w t r (p\<lparr>clock := t\<rparr>) of
                Inl p' \<Rightarrow> Running p'
              | Inr r' \<Rightarrow>
                  (case handle w r' (p\<lparr>clock := t\<rparr>) of
                     Inl Exit1 \<Rightarrow> ProcessExit
                   | Inl Thrown \<Rightarrow> Threw
                   | Inr p' \<Rightarrow> Running (set_pc i Returned p')))
         | _ \<Rightarrow> Disabled)
      else Disabled)"

fun run_events :: "event list \<Rightarrow> pool \<Rightarrow> step_result" where
  "run_events [] p = Running p"
| "run_events (e # es) p =
     (case step e p of
        Running p' \<Rightarrow> run_events es p'
      | Disabled \<Rightarrow> Disabled
      | ProcessExit \<Rightarrow> ProcessExit
      | Threw \<Rightarrow> Threw)"

text \<open>
  \<open>threads.push(startFetcherThread())\<close>: a new thread runs at once up to its
  first \<open>await\<close>.  The script starts \<open>MAX_SIMULTANEOUS_REQUESTS\<close> of them.
\<close>

definition startFetcherThread :: "pool \<Rightarrow> pool" where
  "startFetcherThread p =
     (case loop_head p of
        (c, p') \<Rightarrow> p'\<lparr>threads := threads p' @ [\<lparr>pc = c, throttlingWait = None\<rparr>]\<rparr>)"

definition fresh_pool :: "int \<Rightarrow> state \<Rightarrow> pool" where
  "fresh_pool t0 s =
     \<lparr> st = s, counts = Map.empty, queriesRemaining = 100000,
       retryAfterTimestampMs = 0, gotRateLimited = False, nRequestErrors = 0,
       threads = [], clock = t0, requests = [] \<rparr>"

definition launch :: "int \<Rightarrow> state \<Rightarrow> pool" where
  "launch t0 s = (startFetcherThread ^^ MAX_SIMULTANEOUS_REQUESTS) (fresh_pool t0 s)"

definition all_finished :: "pool \<Rightarrow> bool" where
  "all_finished p = list_all (\<lambda>th. pc th = Finished) (threads p)"

section \<open>The script: one invocation\<close>

text \<open>
  The files of the build branch that the script reads and writes: \<open>state.json\<close>,
  the main file of the package (the final artifact), the files
  \<open>counts0.json\<close>, \<open>counts1.json\<close>, ..., and how often \<open>npm publish\<close> has run.
\<close>

record world =
  state_file :: "state option"
  main_file :: "counts option"
  counts_files :: "nat \<rightharpoonup> counts"
  publishes :: nat

text \<open>
  What the invocation gets from outside: the names of all-the-package-names,
  the time it starts at, and the events of the fetch phase in the order they
  happen.
\<close>

record env =
  names :: "pkg list"
  started :: int
  schedule :: "event list"

datatype phase = Initialise | AlreadyPublished | Publish | Merge | Fetch

text \<open>
  How the process ends: with an exit code, by an uncaught exception, or cut
  off from outside before it ends by itself.
\<close>

datatype ending = Exit nat | Uncaught | Killed

record run =
  executed :: "phase list"
  ended :: "ending option"
  disk :: world

text \<open>
  Scenario 3 reads \<open>counts0.json\<close> and assigns the other files over it in
  index order; \<open>Object.assign\<close> overwrites the keys already there.  Reading a
  file that does not exist throws (\<open>None\<close>).
\<close>

fun assign_files :: "(nat \<rightharpoonup> counts) \<Rightarrow> nat list \<Rightarrow> counts \<Rightarrow> counts option" where
  "assign_files files [] c = Some c"
| "assign_files files (i # js) c =
     (case files i of None \<Rightarrow> None | Some d \<Rightarrow> assign_files files js (c ++ d))"

definition merge_counts :: "(nat \<rightharpoonup> counts) \<Rightarrow> nat \<Rightarrow> counts option" where
  "merge_counts files n =
     (case files 0 of None \<Rightarrow> None | Some c \<Rightarrow> assign_files files [1..<n] c)"

text \<open>
  The top level of the script is a sequence of blocks, each guarded by an
  \<open>if\<close> and ending in \<open>process.exit()\<close>; a block is skipped when the process
  has ended.  They come in the order of the source: Scenario 1, then (with
  the state loaded) Scenarios 5, 4 and 3, then Scenario 2, which is the rest
  of the script.
\<close>

definition scenario1 :: "env \<Rightarrow> run \<Rightarrow> run" where
  "scenario1 e r =
     (if ended r = None \<and> state_file (disk r) = None
      then r\<lparr>executed := executed r @ [Initialise],
             disk := (disk r)\<lparr>state_file := Some (initial_state (names e))\<rparr>,
             ended := Some (Exit 0)\<rparr>
      else r)"

definition scenario5 :: "state \<Rightarrow> run \<Rightarrow> run" where
  "scenario5 state r =
     (if ended r = None \<and> published state
      then r\<lparr>executed := executed r @ [AlreadyPublished], ended := Some (Exit 0)\<rparr>
      else r)"

definition scenario4 :: "state \<Rightarrow> run \<Rightarrow> run" where
  "scenario4 state r =
     (if ended r = None \<and> main_file (disk r) \<noteq> None
      then r\<lparr>executed := executed r @ [Publish],
             disk := (disk r)\<lparr>publishes := publishes (disk r) + 1,
                              state_file := Some (state\<lparr>published := True\<rparr>)\<rparr>,
             ended := Some (Exit 0)\<rparr>
      else r)"

definition scenario3 :: "state \<Rightarrow> run \<Rightarrow> run" where
  "scenario3 state r =
     (if ended r = None \<and>
         length (singlePackages state) = 0 \<and> length (unscopedPackageBatches state) = 0
      then
        (case merge_counts (counts_files (disk r)) (countsFilesSoFar state) of
           None \<Rightarrow> r\<lparr>executed := executed r @ [Merge], ended := Some Uncaught\<rparr>
         | Some c \<Rightarrow>
             r\<lparr>executed := executed r @ [Merge],
               disk := (disk r)\<lparr>main_file := Some c\<rparr>,
               ended := Some (Exit 0)\<rparr>)
      else r)"

text \<open>
  Scenario 2.  When every thread has finished, the counts of this run are
  written to the next counts file and the state is saved; the exit code is 1
  if a 429 was seen.  \<open>process.exit(1)\<close> in \<open>recordUnexpectedError\<close> ends the
  process on the spot, and so does the exception of a thread that
  \<open>await Promise.all(threads)\<close> throws on, which nothing catches.  A schedule
  that stops before the threads have finished (or names an event that cannot
  happen) is a run cut off from outside.
\<close>

definition scenario2 :: "env \<Rightarrow> state \<Rightarrow> run \<Rightarrow> run" where
  "scenario2 e state r =
     (if ended r = None then
        (case run_events (schedule e) (launch (started e) state) of
           ProcessExit \<Rightarrow> r\<lparr>executed := executed r @ [Fetch], ended := Some (Exit 1)\<rparr>
         | Threw \<Rightarrow> r\<lparr>executed := executed r @ [Fetch], ended := Some Uncaught\<rparr>
         | Disabled \<Rightarrow> r\<lparr>executed := executed r @ [Fetch], ended := Some Killed\<rparr>
         | Running p \<Rightarrow>
             if all_finished p then
               r\<lparr>executed := executed r @ [Fetch],
                 disk := (disk r)\<lparr>
                   counts_files := (counts_files (disk r))(countsFilesSoFar (st p) \<mapsto> counts p),
                   state_file := Some ((st p)\<lparr>countsFilesSoFar := countsFilesSoFar (st p) + 1\<rparr>)\<rparr>,
                 ended := Some (Exit (if gotRateLimited p then 1 else 0))\<rparr>
             else r\<lparr>executed := executed r @ [Fetch], ended := Some Killed\<rparr>)
      else r)"

definition script :: "env \<Rightarrow> world \<Rightarrow> run" where
  "script e w =
     (let r1 = scenario1 e \<lparr>executed = [], ended = None, disk = w\<rparr>
      in if ended r1 \<noteq> None then r1
         else
           (case state_file (disk r1) of
              None \<Rightarrow> r1\<lparr>ended := Some Uncaught\<rparr>
            | Some state \<Rightarrow>
                scenario2 e state (scenario3 state (scenario4 state (scenario5 state r1)))))"

section \<open>Notions used to state the properties\<close>

subsection \<open>The dispatch and the endings of an invocation\<close>

text \<open>
  The phase that the dispatch priorities of the specification select for the
  files found at the start of an invocation.
\<close>

definition spec_dispatch :: "world \<Rightarrow> phase" where
  "spec_dispatch w =
     (case state_file w of
        None \<Rightarrow> Initialise
      | Some s \<Rightarrow>
          if published s then AlreadyPublished
          else if main_file w \<noteq> None then Publish
          else if singlePackages s = [] \<and> unscopedPackageBatches s = [] then Merge
          else Fetch)"


definition merged :: "world \<Rightarrow> counts option" where
  "merged w =
     (case state_file w of
        None \<Rightarrow> None
      | Some s \<Rightarrow> merge_counts (counts_files w) (countsFilesSoFar s))"


text \<open>A sequence of invocations, each on the files that the one before left.\<close>

fun invocations :: "env list \<Rightarrow> world \<Rightarrow> world" where
  "invocations [] w = w"
| "invocations (e # es) w = invocations es (disk (script e w))"

subsection \<open>Rejected batches\<close>

text \<open>
  Rejecting a batch with a request-shape status (400 or 403), and one round of
  it: every batch on the queue is popped, last first, and rejected.
\<close>

definition reject :: "nat \<Rightarrow> pkg list \<Rightarrow> pool \<Rightarrow> pool" where
  "reject status batch p =
     (case fetchCountsForUnscopedBatch batch (Http status Absent NotJson) p of
        Inl a \<Rightarrow> p
      | Inr p' \<Rightarrow> p')"

definition reject_round :: "nat \<Rightarrow> pool \<Rightarrow> pool" where
  "reject_round status p =
     foldr (reject status) (unscopedPackageBatches (st p))
       (p\<lparr>st := (st p)\<lparr>unscopedPackageBatches := []\<rparr>\<rparr>)"

text \<open>The identifiers on the two queues of a pool.\<close>

definition queued :: "pool \<Rightarrow> pkg multiset" where
  "queued p = mset (concat (unscopedPackageBatches (st p))) + mset (singlePackages (st p))"

subsection \<open>The rate gate\<close>

text \<open>
  The invariant behind the rate gate: the requests of one thread are at least
  the minimum interval apart, the timer of a thread is due no earlier than the
  minimum interval after each of its requests, and a thread inside the
  cool-down loop has seen its timer fire.  It holds of a pool that has sent
  nothing yet.
\<close>

definition gated :: "pool \<Rightarrow> bool" where
  "gated p \<longleftrightarrow>
     (\<forall>a b. a < b \<longrightarrow> b < length (requests p) \<longrightarrow>
        fst (requests p ! a) = fst (requests p ! b) \<longrightarrow>
        fst (snd (requests p ! a)) + MIN_REQUEST_INTERVAL_MS \<le> fst (snd (requests p ! b))) \<and>
     (\<forall>x \<in> set (requests p).
        fst x < length (threads p) \<and>
        (\<exists>d. throttlingWait (threads p ! fst x) = Some d \<and>
             fst (snd x) + MIN_REQUEST_INTERVAL_MS \<le> d)) \<and>
     (\<forall>i < length (threads p). \<forall>w due.
        pc (threads p ! i) = AwaitCooldown w due \<longrightarrow>
        timer_fired (throttlingWait (threads p ! i)) (clock p))"

definition unsent :: "pool \<Rightarrow> bool" where
  "unsent p \<longleftrightarrow> requests p = [] \<and>
     (\<forall>th \<in> set (threads p). \<forall>w due. pc th \<noteq> AwaitCooldown w due)"

text \<open>
  The delay by which a 429 response pushes the deadline back, by the value of
  its \<open>Retry-After\<close> header: the header's seconds, or an hour when the header
  is absent, is not a number, or is 0.
\<close>

fun retry_delay_ms :: "header_value \<Rightarrow> int" where
  "retry_delay_ms (Numeric n) = (if n = 0 then 60 * 60 * 1000 else n * 1000)"
| "retry_delay_ms Absent = 60 * 60 * 1000"
| "retry_delay_ms NonNumeric = 60 * 60 * 1000"

text \<open>
  The deadline as the specification words it: the maximum of the current
  value and now plus the delay the server gave, or plus an hour when the
  header is missing or invalid.
\<close>

definition spec_retry_deadline :: "int \<Rightarrow> int \<Rightarrow> header_value \<Rightarrow> int" where
  "spec_retry_deadline current now h =
     max current
       (now + (case h of Numeric n \<Rightarrow> n * 1000 | Absent \<Rightarrow> 60 * 60 * 1000
               | NonNumeric \<Rightarrow> 60 * 60 * 1000))"

subsection \<open>Unexpected errors\<close>

text \<open>
  The responses that the handlers pass to \<open>recordUnexpectedError\<close>, the 429
  responses (which \<open>throttledFetch\<close> keeps to itself), and the number of
  unexpected error responses in a run, counted until the process ends; then
  the number for the fetch phase of an invocation.
\<close>

fun unexpected :: "work \<Rightarrow> fetch_result \<Rightarrow> bool" where
  "unexpected w NetworkError = True"
| "unexpected (Batch batch) (Http status h body) =
     (status \<noteq> 200 \<and> status \<noteq> 400 \<and> status \<noteq> 403)"
| "unexpected (Single name) (Http status h body) =
     (status \<noteq> 200 \<and> status \<noteq> 403 \<and> status \<noteq> 404)"

fun rate_limiting :: "fetch_result \<Rightarrow> bool" where
  "rate_limiting NetworkError = False"
| "rate_limiting (Http status h body) = (status = 429)"

fun is_unexpected :: "event \<Rightarrow> pool \<Rightarrow> bool" where
  "is_unexpected (Resume i t) p = False"
| "is_unexpected (Response i t r) p =
     (i < length (threads p) \<and> clock p \<le> t \<and> \<not> rate_limiting r \<and>
      (case pc (threads p ! i) of AwaitResponse w \<Rightarrow> unexpected w r | _ \<Rightarrow> False))"

fun unexpected_errors :: "event list \<Rightarrow> pool \<Rightarrow> nat" where
  "unexpected_errors [] p = 0"
| "unexpected_errors (e # es) p =
     (if is_unexpected e p then 1 else 0) +
     (case step e p of Running p' \<Rightarrow> unexpected_errors es p' | _ \<Rightarrow> 0)"

definition fetch_errors :: "env \<Rightarrow> world \<Rightarrow> nat" where
  "fetch_errors e w =
     (case state_file w of
        None \<Rightarrow> 0
      | Some s \<Rightarrow> unexpected_errors (schedule e) (launch (started e) s))"

subsection \<open>Responses that cannot be read\<close>





subsection \<open>The counts files\<close>

text \<open>
  The counts files on the branch are those that the state counts: none before
  the state file exists, \<open>counts0.json\<close> to \<open>counts(n-1).json\<close> when
  \<open>countsFilesSoFar\<close> is \<open>n\<close>.
\<close>

definition consistent :: "world \<Rightarrow> bool" where
  "consistent w \<longleftrightarrow>
     (case state_file w of
        None \<Rightarrow> counts_files w = Map.empty
      | Some s \<Rightarrow> dom (counts_files w) = {..<countsFilesSoFar s})"

text \<open>
  The value of a key in the highest-indexed of the first \<open>n\<close> counts files
  that has the key.
\<close>

fun latest :: "(nat \<rightharpoonup> counts) \<Rightarrow> nat \<Rightarrow> pkg \<Rightarrow> json option" where
  "latest files 0 k = None"
| "latest files (Suc i) k =
     (case files i of
        None \<Rightarrow> latest files i k
      | Some d \<Rightarrow> (case d k of None \<Rightarrow> latest files i k | Some v \<Rightarrow> Some v))"

subsection \<open>Where the identifiers are\<close>

text \<open>
  During a fetch phase an identifier is on one of the three lists of the
  state, or in the unit of work that a thread holds while its request is under
  way.
\<close>

fun work_ids :: "work \<Rightarrow> pkg list" where
  "work_ids (Batch batch) = batch"
| "work_ids (Single name) = [name]"

fun held :: "pc \<Rightarrow> pkg list" where
  "held (AwaitThrottle w) = work_ids w"
| "held (AwaitCooldown w due) = work_ids w"
| "held (AwaitResponse w) = work_ids w"
| "held Returned = []"
| "held Finished = []"

definition state_ids :: "state \<Rightarrow> pkg multiset" where
  "state_ids s =
     mset (concat (unscopedPackageBatches s)) + mset (singlePackages s) +
     mset (status403Packages s)"

definition tracked :: "pool \<Rightarrow> pkg multiset" where
  "tracked p = state_ids (st p) + mset (concat (map (\<lambda>th. held (pc th)) (threads p)))"

text \<open>
  Whether the handler of a unit of work finds a count for a name in the body
  of a response with status 200: for a batch, the body has an entry under the
  name whose \<open>downloads\<close> is not \<open>null\<close>; for a single package, the body itself
  has a \<open>downloads\<close> that is not \<open>null\<close>.  The count is recorded unless the name
  is \<open>__proto__\<close>.
\<close>

fun has_count :: "work \<Rightarrow> body \<Rightarrow> pkg \<Rightarrow> bool" where
  "has_count w NotJson name = False"
| "has_count (Batch batch) (Json v) name =
     (case Object_entries v of
        None \<Rightarrow> False
      | Some entries \<Rightarrow> list_ex (\<lambda>e. fst e = name \<and> downloads_of (snd e) \<noteq> None) entries)"
| "has_count (Single packageName) (Json v) name = (downloads_of v \<noteq> None)"

definition recorded :: "work \<Rightarrow> body \<Rightarrow> pkg \<Rightarrow> bool" where
  "recorded w b name \<longleftrightarrow> has_count w b name \<and> name \<noteq> ''__proto__''"

text \<open>
  The identifiers whose query a response answers for good.  Those of a unit of
  work answered with 200 are counted, when their count is recorded, or else
  dropped; a single package answered with 404 is dropped.
\<close>

fun counted :: "work \<Rightarrow> fetch_result \<Rightarrow> pkg list" where
  "counted w NetworkError = []"
| "counted w (Http status h body) =
     (if status = 200 then filter (recorded w body) (work_ids w) else [])"

fun dropped :: "work \<Rightarrow> fetch_result \<Rightarrow> pkg list" where
  "dropped w NetworkError = []"
| "dropped (Batch batch) (Http status h body) =
     (if status = 200 then filter (\<lambda>name. \<not> recorded (Batch batch) body name) batch else [])"
| "dropped (Single name) (Http status h body) =
     (if status = 404 then [name]
      else if status = 200 then filter (\<lambda>n. \<not> recorded (Single name) body n) [name]
      else [])"

definition answered :: "work \<Rightarrow> fetch_result \<Rightarrow> pkg list" where
  "answered w r = counted w r @ dropped w r"

text \<open>
  The identifiers that \<open>f\<close> gives for the responses that the handlers dealt
  with: at an event, in a run, in an invocation (a fetch phase that saved its
  progress) and in a sequence of invocations.
\<close>

fun at_event :: "(work \<Rightarrow> fetch_result \<Rightarrow> pkg list) \<Rightarrow> event \<Rightarrow> pool \<Rightarrow> pkg list" where
  "at_event f (Resume i t) p = []"
| "at_event f (Response i t r) p =
     (if i < length (threads p)
      then (case pc (threads p ! i) of AwaitResponse w \<Rightarrow> f w r | _ \<Rightarrow> [])
      else [])"






section \<open>Examples\<close>

text \<open>
  A fresh branch, the state with nothing to do, the state and the branch with
  one scoped package left to fetch, and a branch with two counts files to
  merge.
\<close>

definition blank_world :: world where
  "blank_world = \<lparr> state_file = None, main_file = None, counts_files = Map.empty, publishes = 0 \<rparr>"

definition empty_state :: state where
  "empty_state =
     \<lparr> countsFilesSoFar = 0, singlePackages = [], unscopedPackageBatches = [],
       status403Packages = [], published = False \<rparr>"

definition one_single :: state where
  "one_single = empty_state\<lparr>singlePackages := [''@a/b'']\<rparr>"

definition one_single_world :: world where
  "one_single_world = blank_world\<lparr>state_file := Some one_single\<rparr>"

definition two_files_world :: world where
  "two_files_world =
     \<lparr> state_file = Some (empty_state\<lparr>countsFilesSoFar := 2\<rparr>),
       main_file = None,
       counts_files = [0 \<mapsto> [''a'' \<mapsto> JNum 1, ''b'' \<mapsto> JNum 2], 1 \<mapsto> [''b'' \<mapsto> JNum 3]],
       publishes = 0 \<rparr>"

text \<open>The pool after the request for the only package has started.\<close>

definition first_request :: pool where
  "first_request =
     \<lparr> st = empty_state, counts = Map.empty, queriesRemaining = 100000,
       retryAfterTimestampMs = 0, gotRateLimited = False, nRequestErrors = 0,
       threads = \<lparr>pc = AwaitResponse (Single ''@a/b''), throttlingWait = Some 500\<rparr> #
                 replicate 19 \<lparr>pc = Finished, throttlingWait = None\<rparr>,
       clock = 0,
       requests = [(0, 0, Single ''@a/b'')] \<rparr>"




text \<open>
  Two scoped packages to fetch; the pool after the first was answered with
  403, and the pool after the request for the second has started.
\<close>

definition two_singles :: state where
  "two_singles = empty_state\<lparr>singlePackages := [''@c/d'', ''@a/b'']\<rparr>"

definition one_blocked :: pool where
  "one_blocked =
     \<lparr> st = empty_state\<lparr>status403Packages := [''@a/b'']\<rparr>, counts = Map.empty,
       queriesRemaining = 100000,
       retryAfterTimestampMs = 0, gotRateLimited = False, nRequestErrors = 0,
       threads = \<lparr>pc = Returned, throttlingWait = Some 500\<rparr> #
                 \<lparr>pc = AwaitThrottle (Single ''@c/d''), throttlingWait = None\<rparr> #
                 replicate 18 \<lparr>pc = Finished, throttlingWait = None\<rparr>,
       clock = 10,
       requests = [(0, 0, Single ''@a/b'')] \<rparr>"

definition one_blocked_later :: pool where
  "one_blocked_later =
     one_blocked\<lparr>clock := 20,
       threads := \<lparr>pc = Returned, throttlingWait = Some 500\<rparr> #
                  \<lparr>pc = AwaitResponse (Single ''@c/d''), throttlingWait = Some 520\<rparr> #
                  replicate 18 \<lparr>pc = Finished, throttlingWait = None\<rparr>,
       requests := [(0, 0, Single ''@a/b''), (1, 20, Single ''@c/d'')]\<rparr>"

text \<open>
  Both packages are answered with 429, the second while the thread of the
  first is waiting for the deadline that the first response set; the pool
  when that thread has woken and gone back to waiting, and the pool when it
  has sent its request again.
\<close>

definition deadline_extended :: "event list" where
  "deadline_extended =
     [Resume 0 0, Resume 1 0, Response 0 5 (Http 429 (Numeric 1) NotJson), Resume 0 600,
      Response 1 700 (Http 429 (Numeric 2) NotJson), Resume 0 1005]"

definition waiting_again :: pool where
  "waiting_again =
     \<lparr> st = empty_state, counts = Map.empty, queriesRemaining = 100000,
       retryAfterTimestampMs = 2700, gotRateLimited = True, nRequestErrors = 0,
       threads = \<lparr>pc = AwaitCooldown (Single ''@a/b'') 2700, throttlingWait = Some 500\<rparr> #
                 \<lparr>pc = AwaitThrottle (Single ''@c/d''), throttlingWait = Some 500\<rparr> #
                 replicate 18 \<lparr>pc = Finished, throttlingWait = None\<rparr>,
       clock = 1005,
       requests = [(0, 0, Single ''@a/b''), (1, 0, Single ''@c/d'')] \<rparr>"

definition sent_again :: pool where
  "sent_again =
     waiting_again\<lparr>clock := 2700,
       threads := \<lparr>pc = AwaitResponse (Single ''@a/b''), throttlingWait = Some 3200\<rparr> #
                  \<lparr>pc = AwaitThrottle (Single ''@c/d''), throttlingWait = Some 500\<rparr> #
                  replicate 18 \<lparr>pc = Finished, throttlingWait = None\<rparr>,
       requests := [(0, 0, Single ''@a/b''), (1, 0, Single ''@c/d''), (0, 2700, Single ''@a/b'')]\<rparr>"

text \<open>
  One package is fetched again and again and every attempt fails at the
  network: round \<open>k\<close> of the schedule, the whole schedule, and the pool before
  round \<open>k\<close>.
\<close>

definition error_round :: "nat \<Rightarrow> event list" where
  "error_round k =
     [Resume 0 (500 * int k), Response 0 (500 * int k) NetworkError, Resume 0 (500 * int k)]"

definition failing_schedule :: "event list" where
  "failing_schedule = concat (map error_round [0..<80])"

definition erring :: "nat \<Rightarrow> pool" where
  "erring k =
     \<lparr> st = empty_state, counts = Map.empty, queriesRemaining = 100000 - int k,
       retryAfterTimestampMs = 0, gotRateLimited = False, nRequestErrors = k,
       threads = \<lparr>pc = AwaitThrottle (Single ''@a/b''), throttlingWait = Some (500 * int k)\<rparr> #
                 replicate 19 \<lparr>pc = Finished, throttlingWait = None\<rparr>,
       clock = 500 * int k - 500,
       requests = map (\<lambda>j. (0, 500 * int j, Single ''@a/b'')) [0..<k] \<rparr>"

definition failing_env :: env where
  "failing_env = \<lparr> names = [], started = 0, schedule = failing_schedule \<rparr>"


definition not_found_env :: env where
  "not_found_env =
     \<lparr> names = [], started = 0,
       schedule = [Resume 0 0, Response 0 10 (Http 404 Absent NotJson), Resume 0 20] \<rparr>"






section \<open>Auxiliary facts\<close>

subsection \<open>Request-shape rejections\<close>

lemma foldl_push_single:
  "foldl (\<lambda>q name. push_single name q) p batch =
     p\<lparr>st := (st p)\<lparr>singlePackages := singlePackages (st p) @ batch\<rparr>\<rparr>"
  by (induction batch arbitrary: p) (simp_all add: push_single_def)

lemma handler_shape_rejection:
  assumes "status = 400 \<or> status = 403"
  shows "fetchCountsForUnscopedBatch batch (Http status h body) p =
           Inr (if length batch \<le> 3
                 then p\<lparr>st := (st p)\<lparr>singlePackages := singlePackages (st p) @ batch\<rparr>\<rparr>
                 else p\<lparr>st := (st p)\<lparr>unscopedPackageBatches :=
                             unscopedPackageBatches (st p) @
                               [take (length batch div 2) batch,
                                drop (length batch div 2) batch]\<rparr>\<rparr>)"
  using assms
  by (auto simp: fetchCountsForUnscopedBatch_def foldl_push_single push_batch_def Let_def)

lemma reject_eq:
  assumes "status = 400 \<or> status = 403"
  shows "reject status batch p =
           (if length batch \<le> 3
            then p\<lparr>st := (st p)\<lparr>singlePackages := singlePackages (st p) @ batch\<rparr>\<rparr>
            else p\<lparr>st := (st p)\<lparr>unscopedPackageBatches :=
                        unscopedPackageBatches (st p) @
                          [take (length batch div 2) batch,
                           drop (length batch div 2) batch]\<rparr>\<rparr>)"
  unfolding reject_def handler_shape_rejection [OF assms] by simp

lemma mset_take_drop: "mset (take k xs) + mset (drop k xs) = mset xs"
  by (metis append_take_drop_id mset_append)

lemma reject_queued:
  assumes "status = 400 \<or> status = 403"
  shows "queued (reject status batch p) = queued p + mset batch"
  by (simp add: reject_eq [OF assms] queued_def mset_take_drop)

lemma reject_errors:
  assumes "status = 400 \<or> status = 403"
  shows "nRequestErrors (reject status batch p) = nRequestErrors p"
  by (simp add: reject_eq [OF assms])

lemma half_bound:
  fixes n :: nat
  assumes "n \<le> 2 ^ Suc j"
  shows "n div 2 \<le> 2 ^ j" and "n - n div 2 \<le> 2 ^ j"
  using assms by auto

lemma reject_lengths:
  assumes ok: "status = 400 \<or> status = 403"
    and "length batch \<le> 2 ^ Suc j"
    and "\<forall>b \<in> set (unscopedPackageBatches (st p)). length b \<le> 2 ^ j"
  shows "\<forall>b \<in> set (unscopedPackageBatches (st (reject status batch p))). length b \<le> 2 ^ j"
  using assms(2,3) half_bound [of "length batch" j]
  by (auto simp: reject_eq [OF ok] min_def)

lemma foldr_reject_lengths:
  assumes ok: "status = 400 \<or> status = 403"
    and "\<forall>b \<in> set bs. length b \<le> 2 ^ Suc j"
    and "\<forall>b \<in> set (unscopedPackageBatches (st p)). length b \<le> 2 ^ j"
  shows "\<forall>b \<in> set (unscopedPackageBatches (st (foldr (reject status) bs p))). length b \<le> 2 ^ j"
  using assms(2,3)
proof (induction bs)
  case Nil
  then show ?case by simp
next
  case (Cons b bs)
  then have "\<forall>b \<in> set (unscopedPackageBatches (st (foldr (reject status) bs p))). length b \<le> 2 ^ j"
    by simp
  with Cons.prems(1) show ?case
    using reject_lengths [OF ok, of b j "foldr (reject status) bs p"] by simp
qed

lemma foldr_reject_small:
  assumes ok: "status = 400 \<or> status = 403"
    and "\<forall>b \<in> set bs. length b \<le> 3"
  shows "unscopedPackageBatches (st (foldr (reject status) bs p)) = unscopedPackageBatches (st p)"
  using assms(2) by (induction bs) (simp_all add: reject_eq [OF ok])

lemma foldr_reject_queued:
  assumes ok: "status = 400 \<or> status = 403"
  shows "queued (foldr (reject status) bs p) = queued p + mset (concat bs)"
  by (induction bs) (simp_all add: reject_queued [OF ok])

lemma foldr_reject_errors:
  assumes ok: "status = 400 \<or> status = 403"
  shows "nRequestErrors (foldr (reject status) bs p) = nRequestErrors p"
  by (induction bs) (simp_all add: reject_errors [OF ok])

lemma round_lengths:
  assumes ok: "status = 400 \<or> status = 403"
    and "\<forall>b \<in> set (unscopedPackageBatches (st p)). length b \<le> 2 ^ Suc j"
  shows "\<forall>b \<in> set (unscopedPackageBatches (st (reject_round status p))). length b \<le> 2 ^ j"
  unfolding reject_round_def
  by (rule foldr_reject_lengths [OF ok assms(2)]) simp

lemma round_small:
  assumes ok: "status = 400 \<or> status = 403"
    and "\<forall>b \<in> set (unscopedPackageBatches (st p)). length b \<le> 3"
  shows "unscopedPackageBatches (st (reject_round status p)) = []"
  unfolding reject_round_def
  by (simp add: foldr_reject_small [OF ok assms(2)])

lemma round_queued:
  assumes ok: "status = 400 \<or> status = 403"
  shows "queued (reject_round status p) = queued p"
  unfolding reject_round_def
  by (simp add: foldr_reject_queued [OF ok]) (simp add: queued_def)

lemma round_errors:
  assumes ok: "status = 400 \<or> status = 403"
  shows "nRequestErrors (reject_round status p) = nRequestErrors p"
  unfolding reject_round_def
  by (simp add: foldr_reject_errors [OF ok])

lemma rounds_lengths:
  assumes ok: "status = 400 \<or> status = 403"
    and "\<forall>b \<in> set (unscopedPackageBatches (st p)). length b \<le> 2 ^ (j + k)"
  shows "\<forall>b \<in> set (unscopedPackageBatches (st ((reject_round status ^^ k) p))). length b \<le> 2 ^ j"
  using assms(2)
proof (induction k arbitrary: j)
  case 0
  then show ?case by simp
next
  case (Suc k)
  from Suc.prems have "\<forall>b \<in> set (unscopedPackageBatches (st p)). length b \<le> 2 ^ (Suc j + k)"
    by simp
  from Suc.IH [OF this] show ?case
    using round_lengths [OF ok, of "(reject_round status ^^ k) p" j] by simp
qed

lemma rounds_queued:
  assumes ok: "status = 400 \<or> status = 403"
  shows "queued ((reject_round status ^^ k) p) = queued p"
  by (induction k) (simp_all add: round_queued [OF ok])

lemma rounds_errors:
  assumes ok: "status = 400 \<or> status = 403"
  shows "nRequestErrors ((reject_round status ^^ k) p) = nRequestErrors p"
  by (induction k) (simp_all add: round_errors [OF ok])

subsection \<open>The rate gate\<close>

lemma length_threads_set_pc [simp]:
  "length (threads (set_pc i c p)) = length (threads p)"
  by (simp add: set_pc_def)

lemma threads_set_pc [simp]:
  "j < length (threads p) \<Longrightarrow>
     throttlingWait (threads (set_pc i c p) ! j) = throttlingWait (threads p ! j)"
  "j < length (threads p) \<Longrightarrow>
     pc (threads (set_pc i c p) ! j) = (if j = i then c else pc (threads p ! j))"
  by (cases "j = i"; simp add: set_pc_def)+

lemma fields_set_pc [simp]:
  "st (set_pc i c p) = st p" "counts (set_pc i c p) = counts p"
  "queriesRemaining (set_pc i c p) = queriesRemaining p"
  "retryAfterTimestampMs (set_pc i c p) = retryAfterTimestampMs p"
  "gotRateLimited (set_pc i c p) = gotRateLimited p"
  "nRequestErrors (set_pc i c p) = nRequestErrors p"
  "clock (set_pc i c p) = clock p" "requests (set_pc i c p) = requests p"
  by (simp_all add: set_pc_def)

lemma timer_fired_mono: "timer_fired tw t \<Longrightarrow> t \<le> t' \<Longrightarrow> timer_fired tw t'"
  by (auto simp: timer_fired_def split: option.splits)

lemma gated_cooldown_loop:
  assumes g: "gated p" and i: "i < length (threads p)" and t: "clock p \<le> t"
    and fired: "timer_fired (throttlingWait (threads p ! i)) t"
  shows "gated (cooldown_loop i w t (p\<lparr>clock := t\<rparr>))"
proof (cases "retryAfterTimestampMs p - t > 0")
  case True
  then have eq: "cooldown_loop i w t (p\<lparr>clock := t\<rparr>) =
      set_pc i (AwaitCooldown w (t + (retryAfterTimestampMs p - t))) (p\<lparr>clock := t\<rparr>)"
    by (simp add: cooldown_loop_def)
  show ?thesis
    unfolding eq gated_def
    using g i t fired
    by (auto simp: gated_def intro: timer_fired_mono)
next
  case False
  then have eq: "cooldown_loop i w t (p\<lparr>clock := t\<rparr>) =
      p\<lparr>clock := t,
        threads := (threads p)[i :=
          \<lparr>pc = AwaitResponse w, throttlingWait = Some (t + MIN_REQUEST_INTERVAL_MS)\<rparr>],
        requests := requests p @ [(i, t, w)]\<rparr>"
    by (simp add: cooldown_loop_def)
  have old: "fst x = i \<Longrightarrow> fst (snd x) + MIN_REQUEST_INTERVAL_MS \<le> t"
    if "x \<in> set (requests p)" for x
    using g that fired by (fastforce simp: gated_def timer_fired_def)
  have pos: "0 \<le> MIN_REQUEST_INTERVAL_MS"
    by (simp add: MIN_REQUEST_INTERVAL_MS_def)
  have 1: "fst (snd ((requests p @ [(i, t, w)]) ! a)) + MIN_REQUEST_INTERVAL_MS
        \<le> fst (snd ((requests p @ [(i, t, w)]) ! b))"
    if "a < b" "b < length (requests p @ [(i, t, w)])"
      "fst ((requests p @ [(i, t, w)]) ! a) = fst ((requests p @ [(i, t, w)]) ! b)" for a b
  proof (cases "b < length (requests p)")
    case True
    with that have "a < length (requests p)" "fst (requests p ! a) = fst (requests p ! b)"
      by (simp_all add: nth_append)
    with that(1) True g show ?thesis
      by (simp add: gated_def nth_append)
  next
    case False
    with that have b: "b = length (requests p)" and a: "a < length (requests p)"
      by simp_all
    with that(3) have "fst (requests p ! a) = i"
      by (simp add: nth_append)
    with old [of "requests p ! a"] a b show ?thesis
      by (simp add: nth_append)
  qed
  have 2: "fst x < length (threads p) \<and>
        (\<exists>d. throttlingWait ((threads p)[i :=
          \<lparr>pc = AwaitResponse w, throttlingWait = Some (t + MIN_REQUEST_INTERVAL_MS)\<rparr>] ! fst x) = Some d \<and>
             fst (snd x) + MIN_REQUEST_INTERVAL_MS \<le> d)"
    if "x \<in> set (requests p @ [(i, t, w)])" for x
  proof (cases "x \<in> set (requests p)")
    case True
    with g have "fst x < length (threads p)"
      and "\<exists>d. throttlingWait (threads p ! fst x) = Some d \<and> fst (snd x) + MIN_REQUEST_INTERVAL_MS \<le> d"
      by (auto simp: gated_def)
    with old [OF True] pos show ?thesis
      by (cases "fst x = i") (auto simp: nth_list_update)
  next
    case False
    with that have "x = (i, t, w)" by simp
    with i show ?thesis by simp
  qed
  have 3: "timer_fired (throttlingWait ((threads p)[i :=
          \<lparr>pc = AwaitResponse w, throttlingWait = Some (t + MIN_REQUEST_INTERVAL_MS)\<rparr>] ! j)) t"
    if "j < length (threads p)" "pc ((threads p)[i :=
          \<lparr>pc = AwaitResponse w, throttlingWait = Some (t + MIN_REQUEST_INTERVAL_MS)\<rparr>] ! j) = AwaitCooldown w' due" for j w' due
  proof -
    from that i have "j \<noteq> i" by auto
    with that g t show ?thesis
      by (auto simp: gated_def intro: timer_fired_mono)
  qed
  show ?thesis
    unfolding eq gated_def
    using 1 2 3 by simp
qed


lemma gated_frame:
  assumes g: "gated p"
    and "requests p' = requests p"
    and "length (threads p') = length (threads p)"
    and "\<forall>j < length (threads p). throttlingWait (threads p' ! j) = throttlingWait (threads p ! j)"
    and "clock p \<le> clock p'"
    and "\<forall>j < length (threads p). \<forall>w due. pc (threads p' ! j) = AwaitCooldown w due \<longrightarrow>
           (\<exists>w0 due0. pc (threads p ! j) = AwaitCooldown w0 due0)"
  shows "gated p'"
  unfolding gated_def
proof (intro conjI allI impI ballI)
  fix a b
  assume "a < b" "b < length (requests p')" "fst (requests p' ! a) = fst (requests p' ! b)"
  with g assms(2) show "fst (snd (requests p' ! a)) + MIN_REQUEST_INTERVAL_MS
      \<le> fst (snd (requests p' ! b))"
    by (simp add: gated_def)
next
  fix x assume "x \<in> set (requests p')"
  with g assms(2) have "fst x < length (threads p)"
    and "\<exists>d. throttlingWait (threads p ! fst x) = Some d \<and> fst (snd x) + MIN_REQUEST_INTERVAL_MS \<le> d"
    by (auto simp: gated_def)
  with assms(3,4) show "fst x < length (threads p')"
    and "\<exists>d. throttlingWait (threads p' ! fst x) = Some d \<and> fst (snd x) + MIN_REQUEST_INTERVAL_MS \<le> d"
    by auto
next
  fix i w due
  assume "i < length (threads p')" "pc (threads p' ! i) = AwaitCooldown w due"
  with assms(3,6) obtain w0 due0 where "i < length (threads p)"
    "pc (threads p ! i) = AwaitCooldown w0 due0"
    by auto
  with g have "timer_fired (throttlingWait (threads p ! i)) (clock p)"
    by (auto simp: gated_def)
  with assms(4,5) \<open>i < length (threads p)\<close>
  show "timer_fired (throttlingWait (threads p' ! i)) (clock p')"
    by (auto intro: timer_fired_mono)
qed

lemma loop_head_frame:
  assumes "loop_head p = (c, p')"
  shows "threads p' = threads p" "clock p' = clock p" "requests p' = requests p"
    "retryAfterTimestampMs p' = retryAfterTimestampMs p" "gotRateLimited p' = gotRateLimited p"
    "nRequestErrors p' = nRequestErrors p" "counts p' = counts p"
    "queriesRemaining p' = queriesRemaining p"
    "\<forall>w due. c \<noteq> AwaitCooldown w due" "\<forall>w. c \<noteq> AwaitResponse w"
  using assms by (auto simp: loop_head_def Let_def split: if_splits)

lemma recordUnexpectedError_frame:
  assumes "recordUnexpectedError p = Inr p'"
  shows "p' = p\<lparr>nRequestErrors := nRequestErrors p + 1\<rparr>"
    and "nRequestErrors p + 1 < MAX_REQUEST_ERRORS"
  using assms by (auto simp: recordUnexpectedError_def Let_def split: if_splits)

lemma handle_frame:
  assumes "handle w r p = Inr p'"
  shows "threads p' = threads p" "clock p' = clock p" "requests p' = requests p"
    "retryAfterTimestampMs p' = retryAfterTimestampMs p" "gotRateLimited p' = gotRateLimited p"
    "queriesRemaining p' = queriesRemaining p"
  using assms
  unfolding handle_def fetchCountsForUnscopedBatch_def fetchCountForSinglePackage_def
    foldl_push_single
  by (auto simp: push_batch_def push_single_def push_403_def Let_def
      dest!: recordUnexpectedError_frame(1)
      split: work.splits fetch_result.splits if_splits option.splits body.splits)

lemma rate_limited_frame:
  "threads (rate_limited i w t h p) = (threads p)[i := (threads p ! i)\<lparr>pc := AwaitThrottle w\<rparr>]"
  "clock (rate_limited i w t h p) = clock p" "requests (rate_limited i w t h p) = requests p"
  "st (rate_limited i w t h p) = st p" "counts (rate_limited i w t h p) = counts p"
  "nRequestErrors (rate_limited i w t h p) = nRequestErrors p"
  "queriesRemaining (rate_limited i w t h p) = queriesRemaining p"
  "gotRateLimited (rate_limited i w t h p)"
  by (auto simp: rate_limited_def set_pc_def Let_def split: option.splits)

lemma step_gated:
  assumes g: "gated p" and s: "step e p = Running p'"
  shows "gated p'"
proof (cases e)
  case (Resume i t)
  with s have i: "i < length (threads p)" and t: "clock p \<le> t"
    by (auto split: if_splits)
  show ?thesis
  proof (cases "pc (threads p ! i)")
    case (AwaitThrottle w)
    with s Resume i t have "timer_fired (throttlingWait (threads p ! i)) t"
      and "p' = cooldown_loop i w t (p\<lparr>clock := t\<rparr>)"
      by (auto split: if_splits)
    with gated_cooldown_loop [OF g i t] show ?thesis by simp
  next
    case (AwaitCooldown w due)
    with s Resume i t have p': "p' = cooldown_loop i w t (p\<lparr>clock := t\<rparr>)"
      by (auto split: if_splits)
    from g i AwaitCooldown have "timer_fired (throttlingWait (threads p ! i)) (clock p)"
      by (auto simp: gated_def)
    then have "timer_fired (throttlingWait (threads p ! i)) t"
      using t by (rule timer_fired_mono)
    with gated_cooldown_loop [OF g i t] p' show ?thesis by simp
  next
    case Returned
    obtain c p1 where lh: "loop_head (p\<lparr>clock := t, queriesRemaining := queriesRemaining p - 1\<rparr>) = (c, p1)"
      by fastforce
    with s Resume i t Returned have p': "p' = set_pc i c p1"
      by simp
    show ?thesis
      by (rule gated_frame [OF g]) (use loop_head_frame [OF lh] i t in \<open>auto simp: p' Returned\<close>)
  next
    case (AwaitResponse w)
    with s Resume show ?thesis by (simp split: if_splits)
  next
    case Finished
    with s Resume show ?thesis by (simp split: if_splits)
  qed
next
  case (Response i t r)
  with s have i: "i < length (threads p)" and t: "clock p \<le> t"
    by (auto split: if_splits)
  from s Response i t obtain w where w: "pc (threads p ! i) = AwaitResponse w"
    by (auto split: pc.splits)
  show ?thesis
  proof (cases "throttledFetch_settle i w t r (p\<lparr>clock := t\<rparr>)")
    case (Inl p1)
    with s Response i t w have p': "p' = p1" by simp
    from Inl obtain h where "p1 = rate_limited i w t h (p\<lparr>clock := t\<rparr>)"
      by (auto simp: throttledFetch_settle_def split: fetch_result.splits if_splits)
    then show ?thesis
      unfolding p'
      by (intro gated_frame [OF g]) (use i t w in \<open>auto simp: rate_limited_frame nth_list_update\<close>)
  next
    case (Inr r')
    with s Response i t w obtain p1 where h: "handle w r' (p\<lparr>clock := t\<rparr>) = Inr p1"
      and p': "p' = set_pc i Returned p1"
      by (auto split: sum.splits halt.splits)
    show ?thesis
      by (rule gated_frame [OF g]) (use handle_frame [OF h] i t w in \<open>auto simp: p'\<close>)
  qed
qed

lemma run_gated:
  assumes "gated p" and "run_events es p = Running p'"
  shows "gated p'"
  using assms
proof (induction es arbitrary: p)
  case Nil
  then show ?case by simp
next
  case (Cons e es)
  then obtain p1 where "step e p = Running p1" "run_events es p1 = Running p'"
    by (auto split: step_result.splits)
  with Cons.IH [of p1] step_gated [OF Cons.prems(1)] show ?case
    by blast
qed

lemma unsent_start: "unsent p \<Longrightarrow> unsent (startFetcherThread p)"
proof -
  assume u: "unsent p"
  obtain c p1 where lh: "loop_head p = (c, p1)" by fastforce
  with u loop_head_frame [OF lh] show ?thesis
    by (auto simp: unsent_def startFetcherThread_def)
qed

lemma unsent_launch: "unsent (launch t0 s)"
proof -
  have "unsent ((startFetcherThread ^^ n) (fresh_pool t0 s))" for n
    by (induction n) (simp_all add: unsent_start, simp add: unsent_def fresh_pool_def)
  then show ?thesis by (simp add: launch_def)
qed

lemma unsent_gated: "unsent p \<Longrightarrow> gated p"
  by (auto simp: unsent_def gated_def)

lemma cooldown_loop_request:
  assumes "requests (cooldown_loop i w t p) \<noteq> requests p"
  shows "cooldown_loop i w t p =
      p\<lparr>threads := (threads p)[i :=
          \<lparr>pc = AwaitResponse w, throttlingWait = Some (t + MIN_REQUEST_INTERVAL_MS)\<rparr>],
        requests := requests p @ [(i, t, w)]\<rparr>"
    and "retryAfterTimestampMs p \<le> t"
  using assms by (auto simp: cooldown_loop_def split: if_splits)

lemma step_request:
  assumes s: "step e p = Running p'" and new: "requests p' \<noteq> requests p"
  shows "\<exists>i w. requests p' = requests p @ [(i, clock p', w)] \<and> e = Resume i (clock p') \<and>
           retryAfterTimestampMs p \<le> clock p' \<and>
           retryAfterTimestampMs p' = retryAfterTimestampMs p"
proof (cases e)
  case (Resume i t)
  with s have i: "i < length (threads p)" and t: "clock p \<le> t"
    by (auto split: if_splits)
  have via_loop: ?thesis if "p' = cooldown_loop i w t (p\<lparr>clock := t\<rparr>)" for w
  proof -
    from that new have "requests (cooldown_loop i w t (p\<lparr>clock := t\<rparr>)) \<noteq> requests (p\<lparr>clock := t\<rparr>)"
      by simp
    from cooldown_loop_request [OF this] that Resume show ?thesis
      by simp
  qed
  show ?thesis
  proof (cases "pc (threads p ! i)")
    case (AwaitThrottle w)
    with s Resume i t have "p' = cooldown_loop i w t (p\<lparr>clock := t\<rparr>)"
      by (auto split: if_splits)
    then show ?thesis by (rule via_loop)
  next
    case (AwaitCooldown w due)
    with s Resume i t have "p' = cooldown_loop i w t (p\<lparr>clock := t\<rparr>)"
      by (auto split: if_splits)
    then show ?thesis by (rule via_loop)
  next
    case Returned
    obtain c p1 where lh: "loop_head (p\<lparr>clock := t, queriesRemaining := queriesRemaining p - 1\<rparr>) = (c, p1)"
      by fastforce
    with s Resume i t Returned have "p' = set_pc i c p1"
      by simp
    with loop_head_frame(3) [OF lh] new show ?thesis by simp
  next
    case (AwaitResponse w)
    with s Resume show ?thesis by (simp split: if_splits)
  next
    case Finished
    with s Resume show ?thesis by (simp split: if_splits)
  qed
next
  case (Response i t r)
  with s have i: "i < length (threads p)" and t: "clock p \<le> t"
    by (auto split: if_splits)
  from s Response i t obtain w where w: "pc (threads p ! i) = AwaitResponse w"
    by (auto split: pc.splits)
  show ?thesis
  proof (cases "throttledFetch_settle i w t r (p\<lparr>clock := t\<rparr>)")
    case (Inl p1)
    with s Response i t w have p': "p' = p1" by simp
    from Inl obtain h where "p1 = rate_limited i w t h (p\<lparr>clock := t\<rparr>)"
      by (auto simp: throttledFetch_settle_def split: fetch_result.splits if_splits)
    with p' new show ?thesis
      by (simp add: rate_limited_frame)
  next
    case (Inr r')
    with s Response i t w obtain p1 where h: "handle w r' (p\<lparr>clock := t\<rparr>) = Inr p1"
      and p': "p' = set_pc i Returned p1"
      by (auto split: sum.splits halt.splits)
    with handle_frame(3) [OF h] new show ?thesis by simp
  qed
qed

subsection \<open>Runs of the examples\<close>

lemma launch_one_single:
  "launch 0 one_single =
     \<lparr> st = empty_state, counts = Map.empty, queriesRemaining = 100000,
       retryAfterTimestampMs = 0, gotRateLimited = False, nRequestErrors = 0,
       threads = \<lparr>pc = AwaitThrottle (Single ''@a/b''), throttlingWait = None\<rparr> #
                 replicate 19 \<lparr>pc = Finished, throttlingWait = None\<rparr>,
       clock = 0, requests = [] \<rparr>"
  by (simp add: launch_def MAX_SIMULTANEOUS_REQUESTS_def fresh_pool_def one_single_def
        empty_state_def startFetcherThread_def loop_head_def eval_nat_numeral)

lemma run_first_request:
  "run_events [Resume 0 0] (launch 0 one_single) = Running first_request"
  unfolding launch_one_single
  by (simp add: first_request_def cooldown_loop_def timer_fired_def MIN_REQUEST_INTERVAL_MS_def)

subsection \<open>Counting the unexpected errors\<close>

lemma handle_errors:
  "handle w r p = Inl Exit1 \<longleftrightarrow> unexpected w r \<and> MAX_REQUEST_ERRORS \<le> nRequestErrors p + 1"
  "handle w r p = Inr p' \<Longrightarrow>
     nRequestErrors p' = nRequestErrors p + (if unexpected w r then 1 else 0)"
  unfolding handle_def fetchCountsForUnscopedBatch_def fetchCountForSinglePackage_def
    foldl_push_single
  by (auto simp: push_batch_def push_single_def push_403_def Let_def recordUnexpectedError_def
      split: work.splits fetch_result.splits if_splits option.splits body.splits)

lemma handle_thrown:
  "handle w r p = Inl Thrown \<Longrightarrow> \<not> unexpected w r"
  unfolding handle_def fetchCountsForUnscopedBatch_def fetchCountForSinglePackage_def
    foldl_push_single
  by (auto simp: Let_def recordUnexpectedError_def
      split: work.splits fetch_result.splits if_splits option.splits body.splits)

lemma settle_cases:
  "throttledFetch_settle i w t r p =
     (if rate_limiting r
      then Inl (rate_limited i w t (case r of Http status h body \<Rightarrow> h | NetworkError \<Rightarrow> Absent) p)
      else Inr r)"
  by (cases r) (simp_all add: throttledFetch_settle_def)

lemma step_errors:
  "step e p = ProcessExit \<longleftrightarrow> is_unexpected e p \<and> MAX_REQUEST_ERRORS \<le> nRequestErrors p + 1"
  "step e p = Running p' \<Longrightarrow>
     nRequestErrors p' = nRequestErrors p + (if is_unexpected e p then 1 else 0)"
  "step e p = Disabled \<Longrightarrow> \<not> is_unexpected e p"
  "step e p = Threw \<Longrightarrow> \<not> is_unexpected e p"
proof -
  show "step e p = ProcessExit \<longleftrightarrow> is_unexpected e p \<and> MAX_REQUEST_ERRORS \<le> nRequestErrors p + 1"
  proof (cases e)
    case (Resume i t)
    then show ?thesis
      by (auto split: pc.splits prod.splits)
  next
    case (Response i t r)
    show ?thesis
    proof (cases "pc (threads p ! i)")
      case (AwaitResponse w)
      with Response handle_errors(1) [of w r "p\<lparr>clock := t\<rparr>"] show ?thesis
        by (auto simp: settle_cases split: sum.splits halt.splits)
    qed (use Response in auto)
  qed
  show "nRequestErrors p' = nRequestErrors p + (if is_unexpected e p then 1 else 0)"
    if "step e p = Running p'"
  proof (cases e)
    case (Resume i t)
    with that show ?thesis
      by (auto simp: cooldown_loop_def dest: loop_head_frame(6)
          split: pc.splits prod.splits if_splits)
  next
    case (Response i t r)
    with that show ?thesis
      using handle_errors(2) [of _ r "p\<lparr>clock := t\<rparr>"]
      by (auto simp: settle_cases rate_limited_frame
          split: pc.splits sum.splits halt.splits if_splits)
  qed
  show "\<not> is_unexpected e p" if "step e p = Disabled"
  proof (cases e)
    case (Resume i t)
    then show ?thesis by simp
  next
    case (Response i t r)
    with that show ?thesis
      by (auto simp: settle_cases split: pc.splits sum.splits halt.splits if_splits)
  qed
  show "\<not> is_unexpected e p" if "step e p = Threw"
  proof (cases e)
    case (Resume i t)
    then show ?thesis by simp
  next
    case (Response i t r)
    show ?thesis
    proof (cases "pc (threads p ! i)")
      case (AwaitResponse w)
      with Response that handle_thrown [of w r "p\<lparr>clock := t\<rparr>"] show ?thesis
        by (auto simp: settle_cases split: sum.splits halt.splits if_splits)
    qed (use Response in auto)
  qed
qed

lemma run_errors:
  assumes "nRequestErrors p < MAX_REQUEST_ERRORS"
  shows "(case run_events es p of
            Running p' \<Rightarrow> nRequestErrors p' = nRequestErrors p + unexpected_errors es p \<and>
                          nRequestErrors p' < MAX_REQUEST_ERRORS
          | ProcessExit \<Rightarrow> nRequestErrors p + unexpected_errors es p = MAX_REQUEST_ERRORS
          | Disabled \<Rightarrow> nRequestErrors p + unexpected_errors es p < MAX_REQUEST_ERRORS
          | Threw \<Rightarrow> nRequestErrors p + unexpected_errors es p < MAX_REQUEST_ERRORS)"
  using assms
proof (induction es arbitrary: p)
  case Nil
  then show ?case by simp
next
  case (Cons e es)
  show ?case
  proof (cases "step e p")
    case Disabled
    with step_errors(3) [OF Disabled] Cons.prems show ?thesis by simp
  next
    case (Running p1)
    from step_errors(2) [OF Running]
    have n1: "nRequestErrors p1 = nRequestErrors p + (if is_unexpected e p then 1 else 0)" .
    have "step e p \<noteq> ProcessExit"
      using Running by simp
    with step_errors(1) [of e p] n1 Cons.prems have "nRequestErrors p1 < MAX_REQUEST_ERRORS"
      by (auto split: if_splits)
    from Cons.IH [OF this] n1 Running show ?thesis
      by (auto split: step_result.splits)
  next
    case ProcessExit
    with step_errors(1) [of e p] Cons.prems show ?thesis
      by auto
  next
    case Threw
    with step_errors(4) [OF Threw] Cons.prems show ?thesis by simp
  qed
qed

lemma start_errors: "nRequestErrors (startFetcherThread p) = nRequestErrors p"
proof -
  obtain c p1 where lh: "loop_head p = (c, p1)"
    by fastforce
  with loop_head_frame(6) [OF lh] show ?thesis
    by (simp add: startFetcherThread_def)
qed

lemma launch_errors: "nRequestErrors (launch t0 s) = 0"
proof -
  have "nRequestErrors ((startFetcherThread ^^ n) (fresh_pool t0 s)) = 0" for n
    by (induction n) (simp_all add: start_errors, simp add: fresh_pool_def)
  then show ?thesis by (simp add: launch_def)
qed

lemma ceiling_iff_exit:
  "run_events es (launch t0 s) = ProcessExit \<longleftrightarrow>
     unexpected_errors es (launch t0 s) = MAX_REQUEST_ERRORS"
  using run_errors [of "launch t0 s" es]
  by (auto simp: launch_errors MAX_REQUEST_ERRORS_def split: step_result.splits)

subsection \<open>Responses that cannot be read\<close>






subsection \<open>The script, phase by phase\<close>

lemma script_init:
  "state_file w = None \<Longrightarrow>
     script e w = \<lparr>executed = [Initialise], ended = Some (Exit 0),
                    disk = w\<lparr>state_file := Some (initial_state (names e))\<rparr>\<rparr>"
  by (simp add: script_def scenario1_def)

lemma script_published:
  "state_file w = Some s \<Longrightarrow> published s \<Longrightarrow>
     script e w = \<lparr>executed = [AlreadyPublished], ended = Some (Exit 0), disk = w\<rparr>"
  by (simp add: script_def scenario1_def scenario2_def scenario3_def scenario4_def scenario5_def)

lemma script_publish:
  "state_file w = Some s \<Longrightarrow> \<not> published s \<Longrightarrow> main_file w \<noteq> None \<Longrightarrow>
     script e w = \<lparr>executed = [Publish], ended = Some (Exit 0),
                    disk = w\<lparr>publishes := publishes w + 1,
                             state_file := Some (s\<lparr>published := True\<rparr>)\<rparr>\<rparr>"
  by (simp add: script_def scenario1_def scenario2_def scenario3_def scenario4_def scenario5_def)

lemma script_merge:
  "state_file w = Some s \<Longrightarrow> \<not> published s \<Longrightarrow> main_file w = None \<Longrightarrow>
   singlePackages s = [] \<Longrightarrow> unscopedPackageBatches s = [] \<Longrightarrow>
     script e w =
       (case merge_counts (counts_files w) (countsFilesSoFar s) of
          None \<Rightarrow> \<lparr>executed = [Merge], ended = Some Uncaught, disk = w\<rparr>
        | Some c \<Rightarrow> \<lparr>executed = [Merge], ended = Some (Exit 0), disk = w\<lparr>main_file := Some c\<rparr>\<rparr>)"
  by (simp add: script_def scenario1_def scenario2_def scenario3_def scenario4_def scenario5_def
      split: option.splits)

lemma script_fetch:
  "state_file w = Some s \<Longrightarrow> \<not> published s \<Longrightarrow> main_file w = None \<Longrightarrow>
   \<not> (singlePackages s = [] \<and> unscopedPackageBatches s = []) \<Longrightarrow>
     script e w =
       (case run_events (schedule e) (launch (started e) s) of
          ProcessExit \<Rightarrow> \<lparr>executed = [Fetch], ended = Some (Exit 1), disk = w\<rparr>
        | Threw \<Rightarrow> \<lparr>executed = [Fetch], ended = Some Uncaught, disk = w\<rparr>
        | Disabled \<Rightarrow> \<lparr>executed = [Fetch], ended = Some Killed, disk = w\<rparr>
        | Running p \<Rightarrow>
            if all_finished p then
              \<lparr>executed = [Fetch],
               ended = Some (Exit (if gotRateLimited p then 1 else 0)),
               disk = w\<lparr>counts_files := (counts_files w)(countsFilesSoFar (st p) \<mapsto> counts p),
                        state_file := Some ((st p)\<lparr>countsFilesSoFar := countsFilesSoFar (st p) + 1\<rparr>)\<rparr>\<rparr>
            else \<lparr>executed = [Fetch], ended = Some Killed, disk = w\<rparr>)"
  by (auto simp: script_def scenario1_def scenario2_def scenario3_def scenario4_def scenario5_def
      split: step_result.splits)

lemma dispatch_cases:
  obtains (init) "state_file w = None" "spec_dispatch w = Initialise"
  | (published) s where "state_file w = Some s" "published s" "spec_dispatch w = AlreadyPublished"
  | (publish) s where "state_file w = Some s" "\<not> published s" "main_file w \<noteq> None"
      "spec_dispatch w = Publish"
  | (merge) s where "state_file w = Some s" "\<not> published s" "main_file w = None"
      "singlePackages s = []" "unscopedPackageBatches s = []" "spec_dispatch w = Merge"
  | (fetch) s where "state_file w = Some s" "\<not> published s" "main_file w = None"
      "\<not> (singlePackages s = [] \<and> unscopedPackageBatches s = [])" "spec_dispatch w = Fetch"
proof (cases "state_file w")
  case None
  then show thesis
    using init by (simp add: spec_dispatch_def)
next
  case (Some s)
  show thesis
  proof (cases "published s")
    case True
    with Some show thesis
      using published by (simp add: spec_dispatch_def)
  next
    case unpublished: False
    show thesis
    proof (cases "main_file w = None")
      case False
      with Some unpublished show thesis
        using publish by (simp add: spec_dispatch_def)
    next
      case no_main: True
      show thesis
      proof (cases "singlePackages s = [] \<and> unscopedPackageBatches s = []")
        case True
        with Some unpublished no_main show thesis
          using merge by (simp add: spec_dispatch_def)
      next
        case False
        with Some unpublished no_main show thesis
          using fetch [of s] by (simp add: spec_dispatch_def)
      qed
    qed
  qed
qed

subsection \<open>A run that reaches the error ceiling\<close>

lemma run_events_append:
  "run_events (xs @ ys) p =
     (case run_events xs p of
        Running p' \<Rightarrow> run_events ys p'
      | Disabled \<Rightarrow> Disabled
      | ProcessExit \<Rightarrow> ProcessExit
      | Threw \<Rightarrow> Threw)"
  by (induction xs arbitrary: p) (simp_all split: step_result.splits)

lemma first_error_round:
  "run_events (error_round 0) (launch 0 one_single) = Running (erring 1)"
  unfolding launch_one_single
  by (simp add: error_round_def erring_def cooldown_loop_def timer_fired_def
        MIN_REQUEST_INTERVAL_MS_def throttledFetch_settle_def handle_def
        fetchCountForSinglePackage_def push_single_def recordUnexpectedError_def
        MAX_REQUEST_ERRORS_def loop_head_def set_pc_def empty_state_def)

lemma next_error_round:
  assumes "Suc k < 80"
  shows "run_events (error_round k) (erring k) = Running (erring (Suc k))"
  using assms
  by (simp add: error_round_def erring_def cooldown_loop_def timer_fired_def
        MIN_REQUEST_INTERVAL_MS_def throttledFetch_settle_def handle_def
        fetchCountForSinglePackage_def push_single_def recordUnexpectedError_def
        MAX_REQUEST_ERRORS_def loop_head_def set_pc_def empty_state_def algebra_simps)

lemma last_error_round:
  "run_events (error_round 79) (erring 79) = ProcessExit"
  by (simp add: error_round_def erring_def cooldown_loop_def timer_fired_def
        MIN_REQUEST_INTERVAL_MS_def throttledFetch_settle_def handle_def
        fetchCountForSinglePackage_def push_single_def recordUnexpectedError_def
        MAX_REQUEST_ERRORS_def)

lemma error_rounds:
  "Suc k < 80 \<Longrightarrow> run_events (concat (map error_round [1..<Suc k])) (erring 1) = Running (erring (Suc k))"
proof (induction k)
  case 0
  then show ?case by simp
next
  case (Suc k)
  then have "run_events (concat (map error_round [1..<Suc k])) (erring 1) = Running (erring (Suc k))"
    by simp
  with next_error_round [of "Suc k"] Suc.prems show ?case
    by (simp add: run_events_append)
qed

lemma failing_schedule_exits:
  "run_events failing_schedule (launch 0 one_single) = ProcessExit"
proof -
  have "[0..<80] = [0..<79] @ [79]"
    using upt_Suc_append [of 0 79] by simp
  moreover have "[0..<79] = 0 # [1..<Suc 78]"
    using upt_conv_Cons [of 0 79] by simp
  ultimately have eq: "failing_schedule =
      error_round 0 @ concat (map error_round [1..<Suc 78]) @ error_round 79"
    by (simp add: failing_schedule_def)
  have 1: "run_events (error_round 0) (launch 0 one_single) = Running (erring 1)"
    by (rule first_error_round)
  have 2: "run_events (concat (map error_round [1..<Suc 78])) (erring 1) = Running (erring 79)"
    using error_rounds [of 78] by simp
  show ?thesis
    unfolding eq by (simp only: run_events_append 1 2 last_error_round step_result.case)
qed

subsection \<open>Merging the counts files\<close>

lemma assign_files_append:
  "assign_files files (xs @ [i]) c =
     (case assign_files files xs c of
        None \<Rightarrow> None
      | Some c1 \<Rightarrow> (case files i of None \<Rightarrow> None | Some d \<Rightarrow> Some (c1 ++ d)))"
  by (induction xs arbitrary: c) (simp_all split: option.splits)

lemma merge_counts_Suc:
  "merge_counts files (Suc (Suc n)) =
     (case merge_counts files (Suc n) of
        None \<Rightarrow> None
      | Some c1 \<Rightarrow> (case files (Suc n) of None \<Rightarrow> None | Some d \<Rightarrow> Some (c1 ++ d)))"
proof -
  have "[1..<Suc (Suc n)] = [1..<Suc n] @ [Suc n]"
    by simp
  then show ?thesis
    by (simp only: merge_counts_def assign_files_append split: option.splits) simp
qed

lemma merge_counts_latest:
  "merge_counts files (Suc n) = Some c \<Longrightarrow> c k = latest files (Suc n) k"
proof (induction n arbitrary: c)
  case 0
  then show ?case
    by (auto simp: merge_counts_def split: option.splits)
next
  case (Suc n)
  then show ?case
    by (auto simp: merge_counts_Suc map_add_def split: option.splits)
qed

lemma merge_counts_readable:
  "(\<forall>i < Suc n. files i \<noteq> None) \<Longrightarrow> merge_counts files (Suc n) \<noteq> None"
proof (induction n)
  case 0
  then show ?case
    by (auto simp: merge_counts_def)
next
  case (Suc n)
  then show ?case
    by (auto simp: merge_counts_Suc split: option.splits)
qed

lemma latest_Some_iff:
  "latest files n k = Some v \<longleftrightarrow>
     (\<exists>i < n. \<exists>d. files i = Some d \<and> d k = Some v \<and>
        (\<forall>j d'. i < j \<longrightarrow> j < n \<longrightarrow> files j = Some d' \<longrightarrow> d' k = None))"
proof (induction n)
  case 0
  then show ?case by simp
next
  case (Suc n)
  show ?case
  proof (cases "\<exists>d v'. files n = Some d \<and> d k = Some v'")
    case True
    then obtain d v' where d: "files n = Some d" "d k = Some v'"
      by blast
    then have "latest files (Suc n) k = Some v'"
      by simp
    moreover have "(\<exists>i < Suc n. \<exists>d. files i = Some d \<and> d k = Some v \<and>
        (\<forall>j d'. i < j \<longrightarrow> j < Suc n \<longrightarrow> files j = Some d' \<longrightarrow> d' k = None)) \<longleftrightarrow> v = v'"
    proof
      assume "\<exists>i < Suc n. \<exists>d. files i = Some d \<and> d k = Some v \<and>
        (\<forall>j d'. i < j \<longrightarrow> j < Suc n \<longrightarrow> files j = Some d' \<longrightarrow> d' k = None)"
      then obtain i d0 where i: "i < Suc n" "files i = Some d0" "d0 k = Some v"
        "\<forall>j d'. i < j \<longrightarrow> j < Suc n \<longrightarrow> files j = Some d' \<longrightarrow> d' k = None"
        by blast
      show "v = v'"
      proof (cases "i = n")
        case True
        with i d show ?thesis by simp
      next
        case False
        with i(1) have "i < n" by simp
        with i(4) d show ?thesis by auto
      qed
    next
      assume "v = v'"
      with d show "\<exists>i < Suc n. \<exists>d. files i = Some d \<and> d k = Some v \<and>
        (\<forall>j d'. i < j \<longrightarrow> j < Suc n \<longrightarrow> files j = Some d' \<longrightarrow> d' k = None)"
        by (intro exI [of _ n]) auto
    qed
    ultimately show ?thesis by auto
  next
    case False
    then have absent: "\<And>d. files n = Some d \<Longrightarrow> d k = None"
      by (metis option.exhaust)
    then have l: "latest files (Suc n) k = latest files n k"
      by (auto split: option.splits)
    have "(\<exists>i < Suc n. \<exists>d. files i = Some d \<and> d k = Some v \<and>
        (\<forall>j d'. i < j \<longrightarrow> j < Suc n \<longrightarrow> files j = Some d' \<longrightarrow> d' k = None)) \<longleftrightarrow>
      (\<exists>i < n. \<exists>d. files i = Some d \<and> d k = Some v \<and>
        (\<forall>j d'. i < j \<longrightarrow> j < n \<longrightarrow> files j = Some d' \<longrightarrow> d' k = None))"
      (is "?L \<longleftrightarrow> ?R")
    proof
      assume ?L
      then obtain i d0 where i: "i < Suc n" "files i = Some d0" "d0 k = Some v"
        "\<forall>j d'. i < j \<longrightarrow> j < Suc n \<longrightarrow> files j = Some d' \<longrightarrow> d' k = None"
        by blast
      with absent have "i \<noteq> n" by auto
      with i show ?R
        by (intro exI [of _ i]) auto
    next
      assume ?R
      then obtain i d0 where i: "i < n" "files i = Some d0" "d0 k = Some v"
        "\<forall>j d'. i < j \<longrightarrow> j < n \<longrightarrow> files j = Some d' \<longrightarrow> d' k = None"
        by blast
      have "\<forall>j d'. i < j \<longrightarrow> j < Suc n \<longrightarrow> files j = Some d' \<longrightarrow> d' k = None"
        using i(4) absent by (metis less_Suc_eq)
      with i show ?L
        by (intro exI [of _ i]) auto
    qed
    with l Suc.IH show ?thesis by simp
  qed
qed

subsection \<open>A run that is rate-limited once\<close>


lemma dispatch_one_single: "spec_dispatch one_single_world = Fetch"
  by (simp add: spec_dispatch_def one_single_world_def blank_world_def one_single_def
        empty_state_def)


subsection \<open>The counts files on the branch\<close>

lemma handle_counts_files:
  assumes "handle w r p = Inr p'"
  shows "countsFilesSoFar (st p') = countsFilesSoFar (st p)"
  using assms
  unfolding handle_def fetchCountsForUnscopedBatch_def fetchCountForSinglePackage_def
    foldl_push_single
  by (auto simp: push_batch_def push_single_def push_403_def Let_def
      dest!: recordUnexpectedError_frame(1)
      split: work.splits fetch_result.splits if_splits option.splits body.splits)

lemma loop_head_counts_files:
  assumes "loop_head p = (c, p')"
  shows "countsFilesSoFar (st p') = countsFilesSoFar (st p)"
  using assms by (auto simp: loop_head_def Let_def split: if_splits)

lemma step_counts_files:
  assumes "step e p = Running p'"
  shows "countsFilesSoFar (st p') = countsFilesSoFar (st p)"
proof (cases e)
  case (Resume i t)
  with assms show ?thesis
    by (auto simp: cooldown_loop_def dest: loop_head_counts_files
        split: pc.splits prod.splits if_splits)
next
  case (Response i t r)
  with assms show ?thesis
    by (auto simp: settle_cases rate_limited_frame dest: handle_counts_files
        split: pc.splits sum.splits halt.splits if_splits)
qed

lemma run_counts_files:
  assumes "run_events es p = Running p'"
  shows "countsFilesSoFar (st p') = countsFilesSoFar (st p)"
  using assms
proof (induction es arbitrary: p)
  case Nil
  then show ?case by simp
next
  case (Cons e es)
  then obtain p1 where "step e p = Running p1" "run_events es p1 = Running p'"
    by (auto split: step_result.splits)
  with Cons.IH [of p1] step_counts_files [of e p p1] show ?case
    by simp
qed

lemma start_counts_files:
  "countsFilesSoFar (st (startFetcherThread p)) = countsFilesSoFar (st p)"
proof -
  obtain c p1 where lh: "loop_head p = (c, p1)"
    by fastforce
  with loop_head_counts_files [OF lh] show ?thesis
    by (simp add: startFetcherThread_def)
qed

lemma launch_counts_files: "countsFilesSoFar (st (launch t0 s)) = countsFilesSoFar s"
proof -
  have "countsFilesSoFar (st ((startFetcherThread ^^ n) (fresh_pool t0 s))) = countsFilesSoFar s" for n
    by (induction n) (simp_all add: start_counts_files, simp add: fresh_pool_def)
  then show ?thesis by (simp add: launch_def)
qed

lemma consistent_script:
  assumes "consistent w"
  shows "consistent (disk (script e w))"
proof (cases w rule: dispatch_cases)
  case init
  with assms show ?thesis
    by (simp add: script_init consistent_def initial_state_def Let_def)
next
  case (published s)
  with assms show ?thesis by (simp add: script_published)
next
  case (publish s)
  with assms show ?thesis by (simp add: script_publish consistent_def)
next
  case (merge s)
  with assms show ?thesis
    by (simp add: script_merge consistent_def split: option.splits)
next
  case (fetch s)
  show ?thesis
  proof (cases "run_events (schedule e) (launch (started e) s)")
    case (Running p)
    from run_counts_files [OF Running] have n: "countsFilesSoFar (st p) = countsFilesSoFar s"
      by (simp add: launch_counts_files)
    from assms fetch have "dom (counts_files w) = {..<countsFilesSoFar s}"
      by (simp add: consistent_def)
    with fetch Running n assms show ?thesis
      by (auto simp: script_fetch consistent_def lessThan_Suc)
  qed (use fetch assms in \<open>simp_all add: script_fetch\<close>)
qed

lemma consistent_invocations: "consistent w \<Longrightarrow> consistent (invocations es w)"
  by (induction es arbitrary: w) (simp_all add: consistent_script)

subsection \<open>Conservation of the identifiers\<close>

lemma mset_butlast_last:
  "xs \<noteq> [] \<Longrightarrow> add_mset (last xs) (mset (butlast xs)) = mset xs"
  by (induction xs) auto

lemma mset_concat_butlast:
  "xss \<noteq> [] \<Longrightarrow> mset (concat (butlast xss)) + mset (last xss) = mset (concat xss)"
  by (induction xss) auto

lemma mset_filter_split: "mset (filter P xs) + mset (filter (\<lambda>x. \<not> P x) xs) = mset xs"
  by (induction xs) auto

lemma mset_answered [simp]:
  "mset (answered w NetworkError) = {#}"
  "mset (answered (Batch batch) (Http status h body)) = (if status = 200 then mset batch else {#})"
  "mset (answered (Single name) (Http status h body)) =
     (if status = 200 \<or> status = 404 then {#name#} else {#})"
  by (simp_all add: answered_def mset_filter_split)

lemma handle_ids:
  assumes "handle w r p = Inr p'"
  shows "state_ids (st p') + mset (answered w r) = state_ids (st p) + mset (work_ids w)"
    and "threads p' = threads p"
  using assms
  unfolding handle_def fetchCountsForUnscopedBatch_def fetchCountForSinglePackage_def
    foldl_push_single
  by (auto simp: push_batch_def push_single_def push_403_def Let_def state_ids_def
        mset_take_drop
      dest!: recordUnexpectedError_frame(1)
      split: work.splits fetch_result.splits if_splits option.splits body.splits)

lemma loop_head_ids:
  assumes "loop_head p = (c, p')"
  shows "state_ids (st p') + mset (held c) = state_ids (st p)" and "threads p' = threads p"
  using assms
  by (auto simp: loop_head_def Let_def state_ids_def mset_butlast_last mset_concat_butlast
      split: if_splits)

lemma mset_held_update:
  "i < length ths \<Longrightarrow>
     mset (concat (map (\<lambda>th. held (pc th)) (ths[i := th']))) + mset (held (pc (ths ! i))) =
     mset (concat (map (\<lambda>th. held (pc th)) ths)) + mset (held (pc th'))"
proof (induction ths arbitrary: i)
  case Nil
  then show ?case by simp
next
  case (Cons a ths)
  then show ?case by (cases i) auto
qed

lemma tracked_set_pc:
  assumes "i < length (threads p)"
  shows "tracked (set_pc i c p) + mset (held (pc (threads p ! i))) = tracked p + mset (held c)"
  using mset_held_update [OF assms, of "(threads p ! i)\<lparr>pc := c\<rparr>"]
  by (simp add: tracked_def set_pc_def add.assoc)

lemma tracked_cooldown_loop:
  assumes "i < length (threads p)" and "held (pc (threads p ! i)) = work_ids w"
  shows "tracked (cooldown_loop i w t p) = tracked p"
proof (cases "retryAfterTimestampMs p - t > 0")
  case True
  with tracked_set_pc [OF assms(1), of "AwaitCooldown w (t + (retryAfterTimestampMs p - t))"] assms(2)
  show ?thesis by (simp add: cooldown_loop_def)
next
  case False
  with mset_held_update [OF assms(1),
      of "\<lparr>pc = AwaitResponse w, throttlingWait = Some (t + MIN_REQUEST_INTERVAL_MS)\<rparr>"] assms(2)
  show ?thesis by (simp add: cooldown_loop_def tracked_def)
qed

lemma tracked_clock [simp]:
  "tracked (p\<lparr>clock := t\<rparr>) = tracked p"
  "tracked (p\<lparr>queriesRemaining := q\<rparr>) = tracked p"
  by (simp_all add: tracked_def)

lemma rate_limited_eq:
  "\<exists>d. rate_limited i w t h p =
     set_pc i (AwaitThrottle w) (p\<lparr>gotRateLimited := True, retryAfterTimestampMs := d\<rparr>)"
  by (auto simp: rate_limited_def Let_def split: option.splits)

lemma step_tracked:
  assumes s: "step e p = Running p'"
  shows "tracked p' + mset (at_event answered e p) = tracked p"
proof (cases e)
  case (Resume i t)
  with s have i: "i < length (threads p)" and t: "clock p \<le> t"
    by (auto split: if_splits)
  show ?thesis
  proof (cases "pc (threads p ! i)")
    case (AwaitThrottle w)
    with s Resume i t have "p' = cooldown_loop i w t (p\<lparr>clock := t\<rparr>)"
      by (auto split: if_splits)
    with tracked_cooldown_loop [of i "p\<lparr>clock := t\<rparr>" w t] i AwaitThrottle Resume
    show ?thesis by simp
  next
    case (AwaitCooldown w due)
    with s Resume i t have "p' = cooldown_loop i w t (p\<lparr>clock := t\<rparr>)"
      by (auto split: if_splits)
    with tracked_cooldown_loop [of i "p\<lparr>clock := t\<rparr>" w t] i AwaitCooldown Resume
    show ?thesis by simp
  next
    case Returned
    obtain c p1 where lh: "loop_head (p\<lparr>clock := t, queriesRemaining := queriesRemaining p - 1\<rparr>) = (c, p1)"
      by fastforce
    with s Resume i t Returned have p': "p' = set_pc i c p1"
      by simp
    from loop_head_ids [OF lh] have "tracked p1 + mset (held c) = tracked p"
      by (simp add: tracked_def)
    with tracked_set_pc [of i p1 c] loop_head_ids(2) [OF lh] i Returned p' Resume
    show ?thesis by simp
  next
    case (AwaitResponse w)
    with s Resume show ?thesis by (simp split: if_splits)
  next
    case Finished
    with s Resume show ?thesis by (simp split: if_splits)
  qed
next
  case (Response i t r)
  with s have i: "i < length (threads p)" and t: "clock p \<le> t"
    by (auto split: if_splits)
  from s Response i t obtain w where w: "pc (threads p ! i) = AwaitResponse w"
    by (auto split: pc.splits)
  show ?thesis
  proof (cases "throttledFetch_settle i w t r (p\<lparr>clock := t\<rparr>)")
    case (Inl p1)
    with s Response i t w have p': "p' = p1" by simp
    from Inl obtain h body where r: "r = Http 429 h body"
      and "p1 = rate_limited i w t h (p\<lparr>clock := t\<rparr>)"
      by (auto simp: throttledFetch_settle_def split: fetch_result.splits if_splits)
    with rate_limited_eq [of i w t h "p\<lparr>clock := t\<rparr>"] obtain d where
      "p1 = set_pc i (AwaitThrottle w) (p\<lparr>clock := t, gotRateLimited := True, retryAfterTimestampMs := d\<rparr>)"
      by auto
    with tracked_set_pc [of i "p\<lparr>clock := t, gotRateLimited := True, retryAfterTimestampMs := d\<rparr>" "AwaitThrottle w"]
      i w p' r Response
    show ?thesis
      by (cases w) (simp_all add: tracked_def)
  next
    case (Inr r')
    then have r': "r' = r"
      by (auto simp: throttledFetch_settle_def split: fetch_result.splits if_splits)
    with Inr s Response i t w obtain p1 where h: "handle w r (p\<lparr>clock := t\<rparr>) = Inr p1"
      and p': "p' = set_pc i Returned p1"
      by (auto split: sum.splits halt.splits)
    from handle_ids [OF h]
    have A: "tracked p1 + mset (answered w r) = tracked p + mset (work_ids w)"
      by (simp add: tracked_def)
    from tracked_set_pc [of i p1 Returned] handle_ids(2) [OF h] i w
    have B: "tracked (set_pc i Returned p1) + mset (work_ids w) = tracked p1"
      by simp
    have "(tracked (set_pc i Returned p1) + mset (answered w r)) + mset (work_ids w) =
        tracked p + mset (work_ids w)"
      by (metis A B add.assoc add.commute)
    then have "tracked (set_pc i Returned p1) + mset (answered w r) = tracked p"
      by (rule add_right_imp_eq)
    with w i p' Response show ?thesis by simp
  qed
qed










subsection \<open>Counted and dropped identifiers\<close>














text \<open>
  A batch of one name whose query is answered in the format of a
  single-package query: the body has no entry under the name, no count is
  recorded and the name is dropped.
\<close>

lemma single_format_answer:
  "handle (Batch [''x''])
     (Http 200 Absent (Json (JObj [(''downloads'', JNum 5), (''package'', JStr ''x'')])))
     (fresh_pool 0 empty_state) = Inr (fresh_pool 0 empty_state)"
  "counted (Batch [''x''])
     (Http 200 Absent (Json (JObj [(''downloads'', JNum 5), (''package'', JStr ''x'')]))) = []"
  "dropped (Batch [''x''])
     (Http 200 Absent (Json (JObj [(''downloads'', JNum 5), (''package'', JStr ''x'')]))) =
     [''x'']"
  by (simp_all add: handle_def fetchCountsForUnscopedBatch_def record_entry_def recorded_def
        fresh_pool_def)




subsection \<open>Two cycles\<close>











subsection \<open>The blocked list\<close>

lemma handle_blocked:
  assumes "handle w r p = Inr p'"
  shows "\<exists>more. status403Packages (st p') = status403Packages (st p) @ more"
  using assms
  unfolding handle_def fetchCountsForUnscopedBatch_def fetchCountForSinglePackage_def
    foldl_push_single
  by (auto simp: push_batch_def push_single_def push_403_def Let_def
      dest!: recordUnexpectedError_frame(1)
      split: work.splits fetch_result.splits if_splits option.splits body.splits)

lemma loop_head_blocked:
  assumes "loop_head p = (c, p')"
  shows "status403Packages (st p') = status403Packages (st p)"
  using assms by (auto simp: loop_head_def Let_def split: if_splits)

lemma step_blocked:
  assumes "step e p = Running p'"
  shows "\<exists>more. status403Packages (st p') = status403Packages (st p) @ more"
proof (cases e)
  case (Resume i t)
  with assms show ?thesis
    by (auto simp: cooldown_loop_def dest: loop_head_blocked
        split: pc.splits prod.splits if_splits)
next
  case (Response i t r)
  with assms show ?thesis
    by (auto simp: settle_cases rate_limited_frame dest: handle_blocked
        split: pc.splits sum.splits halt.splits if_splits)
qed

lemma run_blocked:
  assumes "run_events es p = Running p'"
  shows "\<exists>more. status403Packages (st p') = status403Packages (st p) @ more"
  using assms
proof (induction es arbitrary: p)
  case Nil
  then show ?case by simp
next
  case (Cons e es)
  then obtain p1 where 1: "step e p = Running p1" and 2: "run_events es p1 = Running p'"
    by (auto split: step_result.splits)
  from step_blocked [OF 1] Cons.IH [OF 2] show ?case
    by auto
qed


lemma cooldown_loop_request_held:
  assumes "requests (cooldown_loop i w t p) \<noteq> requests p"
  shows "requests (cooldown_loop i w t p) = requests p @ [(i, t, w)]"
    and "clock (cooldown_loop i w t p) = clock p"
  using assms by (auto simp: cooldown_loop_def split: if_splits)

lemma step_request_held:
  assumes s: "step e p = Running p'" and new: "requests p' \<noteq> requests p"
  shows "\<exists>i w. i < length (threads p) \<and> held (pc (threads p ! i)) = work_ids w \<and>
           requests p' = requests p @ [(i, clock p', w)]"
proof (cases e)
  case (Resume i t)
  with s have i: "i < length (threads p)" and t: "clock p \<le> t"
    by (auto split: if_splits)
  have via_loop: ?thesis
    if p': "p' = cooldown_loop i w t (p\<lparr>clock := t\<rparr>)"
      and h: "held (pc (threads p ! i)) = work_ids w" for w
  proof -
    from p' new have "requests (cooldown_loop i w t (p\<lparr>clock := t\<rparr>)) \<noteq> requests (p\<lparr>clock := t\<rparr>)"
      by simp
    from cooldown_loop_request_held [OF this] p'
    have "requests p' = requests p @ [(i, t, w)]" and "clock p' = t"
      by simp_all
    with i h show ?thesis by blast
  qed
  show ?thesis
  proof (cases "pc (threads p ! i)")
    case (AwaitThrottle w)
    with s Resume i t have "p' = cooldown_loop i w t (p\<lparr>clock := t\<rparr>)"
      by (auto split: if_splits)
    then show ?thesis using AwaitThrottle by (intro via_loop) simp_all
  next
    case (AwaitCooldown w due)
    with s Resume i t have "p' = cooldown_loop i w t (p\<lparr>clock := t\<rparr>)"
      by (auto split: if_splits)
    then show ?thesis using AwaitCooldown by (intro via_loop) simp_all
  next
    case Returned
    obtain c p1 where lh: "loop_head (p\<lparr>clock := t, queriesRemaining := queriesRemaining p - 1\<rparr>) = (c, p1)"
      by fastforce
    with s Resume i t Returned have "p' = set_pc i c p1"
      by simp
    with loop_head_frame(3) [OF lh] new show ?thesis by simp
  next
    case (AwaitResponse w)
    with s Resume show ?thesis by (simp split: if_splits)
  next
    case Finished
    with s Resume show ?thesis by (simp split: if_splits)
  qed
next
  case (Response i t r)
  with step_request [OF s new] show ?thesis by auto
qed

lemma held_in_tracked:
  assumes "i < length (threads p)" and "name \<in> set (held (pc (threads p ! i)))"
  shows "count (state_ids (st p)) name < count (tracked p) name"
proof -
  from assms have "name \<in> set (concat (map (\<lambda>th. held (pc th)) (threads p)))"
    by (auto intro!: bexI [of _ "threads p ! i"])
  then have "0 < count (mset (concat (map (\<lambda>th. held (pc th)) (threads p)))) name"
    by (simp add: count_greater_zero_iff)
  then show ?thesis
    by (simp add: tracked_def)
qed

lemma blocked_in_state_ids:
  "name \<in> set (status403Packages s) \<Longrightarrow> 0 < count (state_ids s) name"
  by (simp add: state_ids_def count_greater_zero_iff)

lemma step_blocked_unrequested:
  assumes s: "step e p = Running p'"
    and b: "name \<in> set (status403Packages (st p))"
    and once: "count (tracked p) name \<le> 1"
  shows "name \<in> set (status403Packages (st p'))"
    and "count (tracked p') name \<le> 1"
    and "\<exists>new. requests p' = requests p @ new \<and>
           (\<forall>x \<in> set new. name \<notin> set (work_ids (snd (snd x))))"
proof -
  from step_blocked [OF s] b show "name \<in> set (status403Packages (st p'))"
    by auto
  from step_tracked [OF s] have "count (tracked p') name \<le> count (tracked p) name"
    by (metis count_union le_add1)
  with once show "count (tracked p') name \<le> 1"
    by simp
  show "\<exists>new. requests p' = requests p @ new \<and>
           (\<forall>x \<in> set new. name \<notin> set (work_ids (snd (snd x))))"
  proof (cases "requests p' = requests p")
    case True
    then show ?thesis by simp
  next
    case False
    from step_request_held [OF s False] obtain i w where
      i: "i < length (threads p)" and h: "held (pc (threads p ! i)) = work_ids w"
      and r: "requests p' = requests p @ [(i, clock p', w)]"
      by blast
    have "name \<notin> set (work_ids w)"
    proof
      assume "name \<in> set (work_ids w)"
      with held_in_tracked [OF i, of name] h
      have "count (state_ids (st p)) name < count (tracked p) name"
        by simp
      moreover from b have "0 < count (state_ids (st p)) name"
        by (rule blocked_in_state_ids)
      ultimately show False
        using once by linarith
    qed
    with r show ?thesis by simp
  qed
qed

lemma run_blocked_unrequested:
  assumes "run_events es p = Running p'"
    and "name \<in> set (status403Packages (st p))"
    and "count (tracked p) name \<le> 1"
  shows "name \<in> set (status403Packages (st p')) \<and>
         (\<exists>new. requests p' = requests p @ new \<and>
            (\<forall>x \<in> set new. name \<notin> set (work_ids (snd (snd x)))))"
  using assms
proof (induction es arbitrary: p)
  case Nil
  then show ?case by simp
next
  case (Cons e es)
  then obtain p1 where 1: "step e p = Running p1" and 2: "run_events es p1 = Running p'"
    by (auto split: step_result.splits)
  note s = step_blocked_unrequested [OF 1 Cons.prems(2,3)]
  from Cons.IH [OF 2 s(1,2)] s(3) show ?case
    by auto
qed

lemma launch_two_singles:
  "launch 0 two_singles =
     \<lparr> st = empty_state, counts = Map.empty, queriesRemaining = 100000,
       retryAfterTimestampMs = 0, gotRateLimited = False, nRequestErrors = 0,
       threads = \<lparr>pc = AwaitThrottle (Single ''@a/b''), throttlingWait = None\<rparr> #
                 \<lparr>pc = AwaitThrottle (Single ''@c/d''), throttlingWait = None\<rparr> #
                 replicate 18 \<lparr>pc = Finished, throttlingWait = None\<rparr>,
       clock = 0, requests = [] \<rparr>"
  by (simp add: launch_def MAX_SIMULTANEOUS_REQUESTS_def fresh_pool_def two_singles_def
        empty_state_def startFetcherThread_def loop_head_def eval_nat_numeral)

lemma run_one_blocked:
  "run_events [Resume 0 0, Response 0 10 (Http 403 Absent NotJson)] (launch 0 two_singles) =
     Running one_blocked"
  unfolding launch_two_singles
  by (simp add: one_blocked_def cooldown_loop_def timer_fired_def MIN_REQUEST_INTERVAL_MS_def
        throttledFetch_settle_def handle_def fetchCountForSinglePackage_def push_403_def
        set_pc_def empty_state_def)

lemma run_one_blocked_later:
  "run_events [Resume 1 20] one_blocked = Running one_blocked_later"
  by (simp add: one_blocked_def one_blocked_later_def cooldown_loop_def timer_fired_def
        MIN_REQUEST_INTERVAL_MS_def)

lemma run_deadline_extended:
  "run_events deadline_extended (launch 0 two_singles) = Running waiting_again"
  unfolding launch_two_singles
  by (simp add: deadline_extended_def waiting_again_def cooldown_loop_def set_pc_def
        throttledFetch_settle_def rate_limited_def timer_fired_def MIN_REQUEST_INTERVAL_MS_def)

lemma step_sent_again: "step (Resume 0 2700) waiting_again = Running sent_again"
  by (simp add: waiting_again_def sent_again_def cooldown_loop_def MIN_REQUEST_INTERVAL_MS_def)

lemma run_sent_again:
  "run_events (deadline_extended @ [Resume 0 2700]) (launch 0 two_singles) = Running sent_again"
  by (simp only: run_events_append run_deadline_extended step_result.case run_events.simps
        step_sent_again)

lemma consistent_cycle: "consistent (invocations es blank_world)"
  by (rule consistent_invocations) (simp add: consistent_def blank_world_def)

subsection \<open>A response that limits the rate\<close>

text \<open>
  What a 429 response does in every case: the deadline moves to the maximum
  of its value and now plus the delay, \<open>gotRateLimited\<close> is set, the thread
  goes back to the start of \<open>throttledFetch\<close> with the same request, and
  queues, counts and error count stay as they are.  \<open>throttledFetch\<close> hands
  its caller only results that are not 429 responses.  The delay is that of
  the header except when the header is 0.
\<close>

lemma rate_limited_step:
  assumes "i < length (threads p)" and "clock p \<le> t"
    and "pc (threads p ! i) = AwaitResponse w"
  shows "step (Response i t (Http 429 h body)) p =
           Running (p\<lparr>clock := t,
                      gotRateLimited := True,
                      retryAfterTimestampMs :=
                        max (retryAfterTimestampMs p) (t + retry_delay_ms h),
                      threads := (threads p)[i := (threads p ! i)\<lparr>pc := AwaitThrottle w\<rparr>]\<rparr>) \<and>
         (\<forall>r r'. throttledFetch_settle i w t r p = Inr r' \<longrightarrow>
            r' = r \<and> (\<forall>h' body'. r \<noteq> Http 429 h' body'))"
  using assms
  by (cases h)
     (auto simp: throttledFetch_settle_def rate_limited_def set_pc_def Let_def add.commute
       split: fetch_result.splits if_splits)

lemma retry_delay_as_specified:
  "h \<noteq> Numeric 0 \<Longrightarrow>
     max current (now + retry_delay_ms h) = spec_retry_deadline current now h"
  by (cases h) (simp_all add: spec_retry_deadline_def)

section \<open>The properties\<close>

text \<open>
  C1.  Every invocation executes exactly one phase and then ends, and the
  phase is the one that the dispatch priorities select: initialise when there
  is no state file; else nothing when the state says published; else publish
  when the main file exists; else merge when both queues are empty; else
  fetch.  The first four change the files as described and nothing else.
\<close>

theorem one_phase_per_invocation:
  "executed (script e w) = [spec_dispatch w] \<and> ended (script e w) \<noteq> None \<and>
   (case spec_dispatch w of
      Initialise \<Rightarrow> disk (script e w) = w\<lparr>state_file := Some (initial_state (names e))\<rparr>
    | AlreadyPublished \<Rightarrow> disk (script e w) = w
    | Publish \<Rightarrow>
        disk (script e w) =
          w\<lparr>publishes := publishes w + 1,
            state_file := map_option (\<lambda>s. s\<lparr>published := True\<rparr>) (state_file w)\<rparr>
    | Merge \<Rightarrow> disk (script e w) = w\<lparr>main_file := merged w\<rparr>
    | Fetch \<Rightarrow>
        main_file (disk (script e w)) = main_file w \<and>
        publishes (disk (script e w)) = publishes w)"
proof (cases w rule: dispatch_cases)
  case init
  then show ?thesis by (simp add: script_init)
next
  case (published s)
  then show ?thesis by (simp add: script_published)
next
  case (publish s)
  then show ?thesis by (simp add: script_publish)
next
  case (merge s)
  then show ?thesis
    by (simp add: script_merge merged_def split: option.splits)
next
  case (fetch s)
  then show ?thesis
    by (simp add: script_fetch split: step_result.splits)
qed




text \<open>
  C3.  A batch whose request is answered with 400 or 403: if it has more than
  three members, its two halves are pushed on the batch queue, and the halves
  are non-empty and together are the batch; if it has at most three members,
  they are appended to the singles queue.  Nothing else changes: the error
  count stays as it is and the process does not exit.
\<close>

theorem shape_rejection_splits_or_demotes:
  assumes "status = 400 \<or> status = 403"
  shows "fetchCountsForUnscopedBatch batch (Http status h body) p =
           Inr (if length batch \<le> 3
                 then p\<lparr>st := (st p)\<lparr>singlePackages := singlePackages (st p) @ batch\<rparr>\<rparr>
                 else p\<lparr>st := (st p)\<lparr>unscopedPackageBatches :=
                             unscopedPackageBatches (st p) @
                               [take (length batch div 2) batch,
                                drop (length batch div 2) batch]\<rparr>\<rparr>) \<and>
         take (length batch div 2) batch @ drop (length batch div 2) batch = batch \<and>
         (3 < length batch \<longrightarrow>
            take (length batch div 2) batch \<noteq> [] \<and> drop (length batch div 2) batch \<noteq> [])"
  using assms
  by (auto simp: fetchCountsForUnscopedBatch_def foldl_push_single push_batch_def Let_def)

theorem shape_rejection_witness:
  "fetchCountsForUnscopedBatch [''a'', ''b'', ''c'', ''d''] (Http 403 Absent NotJson)
     (fresh_pool 0 empty_state) =
   Inr ((fresh_pool 0 empty_state)
          \<lparr>st := empty_state\<lparr>unscopedPackageBatches := [[''a'', ''b''], [''c'', ''d'']]\<rparr>\<rparr>) \<and>
   fetchCountsForUnscopedBatch [''a'', ''b'', ''c''] (Http 400 Absent NotJson)
     (fresh_pool 0 empty_state) =
   Inr ((fresh_pool 0 empty_state)
          \<lparr>st := empty_state\<lparr>singlePackages := [''a'', ''b'', ''c'']\<rparr>\<rparr>)"
  using shape_rejection_splits_or_demotes
          [of 403 "[''a'', ''b'', ''c'', ''d'']" Absent NotJson "fresh_pool 0 empty_state"]
        shape_rejection_splits_or_demotes
          [of 400 "[''a'', ''b'', ''c'']" Absent NotJson "fresh_pool 0 empty_state"]
  by (simp add: fresh_pool_def empty_state_def)

text \<open>
  C4.  Rejecting a batch of N \<ge> 1 names with a request-shape status, and its
  descendants in turn, comes to an end: after at most \<lceil>log2 N\<rceil> rounds (one
  round for N = 1) the batch queue is empty and the singles queue has gained
  exactly the names of the batch, with no error counted.  The batches that a
  rejection leaves on the queue are non-empty and strictly shorter than the
  rejected one.
\<close>

theorem repeated_rejection_ends_in_singles:
  assumes ok: "status = 400 \<or> status = 403"
    and N: "1 \<le> length batch"
    and q: "unscopedPackageBatches (st p) = [batch]"
  shows "unscopedPackageBatches
           (st ((reject_round status ^^ max 1 (ceillog2 (length batch))) p)) = [] \<and>
         mset (singlePackages (st ((reject_round status ^^ max 1 (ceillog2 (length batch))) p))) =
           mset (singlePackages (st p)) + mset batch \<and>
         nRequestErrors ((reject_round status ^^ max 1 (ceillog2 (length batch))) p) =
           nRequestErrors p \<and>
         (\<forall>b \<in> set (unscopedPackageBatches (st (reject_round status p))).
            b \<noteq> [] \<and> length b < length batch)"
proof -
  define K where "K = max 1 (ceillog2 (length batch))"
  have "K \<noteq> 0"
    by (simp add: K_def)
  then obtain k where k: "K = Suc k"
    using not0_implies_Suc by blast
  have "length batch \<le> 2 ^ ceillog2 (length batch)"
    by (rule le_two_power_ceillog2)
  also have "\<dots> \<le> 2 ^ K"
    by (simp add: K_def)
  finally have "\<forall>b \<in> set (unscopedPackageBatches (st p)). length b \<le> 2 ^ (1 + k)"
    by (simp add: q k)
  from rounds_lengths [OF ok this]
  have "\<forall>b \<in> set (unscopedPackageBatches (st ((reject_round status ^^ k) p))). length b \<le> 3"
    by fastforce
  from round_small [OF ok this]
  have empty: "unscopedPackageBatches (st ((reject_round status ^^ K) p)) = []"
    by (simp add: k)
  have "queued ((reject_round status ^^ K) p) = queued p"
    by (rule rounds_queued [OF ok])
  with empty q have ids: "mset (singlePackages (st ((reject_round status ^^ K) p))) =
      mset (singlePackages (st p)) + mset batch"
    by (simp add: queued_def)
  have shrink: "\<forall>b \<in> set (unscopedPackageBatches (st (reject_round status p))).
      b \<noteq> [] \<and> length b < length batch"
    using N by (auto simp: reject_round_def q reject_eq [OF ok])
  from empty ids rounds_errors [OF ok, of K p] shrink show ?thesis
    by (simp add: K_def)
qed

theorem repeated_rejection_witness:
  "unscopedPackageBatches
     (st (reject_round 403
            (fresh_pool 0 (empty_state\<lparr>unscopedPackageBatches := [[''a'', ''b'', ''c'', ''d'']]\<rparr>)))) =
     [[''a'', ''b''], [''c'', ''d'']] \<and>
   unscopedPackageBatches
     (st ((reject_round 403 ^^ 2)
            (fresh_pool 0 (empty_state\<lparr>unscopedPackageBatches := [[''a'', ''b'', ''c'', ''d'']]\<rparr>)))) = [] \<and>
   mset (singlePackages
     (st ((reject_round 403 ^^ 2)
            (fresh_pool 0 (empty_state\<lparr>unscopedPackageBatches := [[''a'', ''b'', ''c'', ''d'']]\<rparr>))))) =
     mset [''a'', ''b'', ''c'', ''d'']"
proof -
  have len: "length [''a'', ''b'', ''c'', ''d''] = 2 ^ 2"
    by simp
  have c: "max 1 (ceillog2 (length [''a'', ''b'', ''c'', ''d''])) = 2"
    unfolding len ceillog2_2_power by simp
  have q: "unscopedPackageBatches
      (st (fresh_pool 0 (empty_state\<lparr>unscopedPackageBatches := [[''a'', ''b'', ''c'', ''d'']]\<rparr>))) =
      [[''a'', ''b'', ''c'', ''d'']]"
    by (simp add: fresh_pool_def)
  have s: "singlePackages
      (st (fresh_pool 0 (empty_state\<lparr>unscopedPackageBatches := [[''a'', ''b'', ''c'', ''d'']]\<rparr>))) = []"
    by (simp add: fresh_pool_def empty_state_def)
  have r: "unscopedPackageBatches
     (st (reject_round 403
            (fresh_pool 0 (empty_state\<lparr>unscopedPackageBatches := [[''a'', ''b'', ''c'', ''d'']]\<rparr>)))) =
     [[''a'', ''b''], [''c'', ''d'']]"
    by (simp add: reject_round_def reject_def fetchCountsForUnscopedBatch_def push_batch_def
          fresh_pool_def empty_state_def)
  from repeated_rejection_ends_in_singles [of 403 "[''a'', ''b'', ''c'', ''d'']", OF _ _ q] r
  show ?thesis
    unfolding c s by simp
qed

text \<open>
  C5.  In every pool reached from the start of the fetch phase, two requests
  of the same thread start at least \<open>MIN_REQUEST_INTERVAL_MS\<close> apart; and an
  event that starts a request does so at a time that the shared deadline
  \<open>retryAfterTimestampMs\<close>, whichever thread set it and whenever, has been
  reached.
\<close>

theorem request_starts_respect_interval_and_deadline:
  assumes "run_events es (launch t0 s) = Running p"
  shows "(\<forall>a b. a < b \<longrightarrow> b < length (requests p) \<longrightarrow>
            fst (requests p ! a) = fst (requests p ! b) \<longrightarrow>
            fst (snd (requests p ! a)) + MIN_REQUEST_INTERVAL_MS \<le> fst (snd (requests p ! b))) \<and>
         (\<forall>e p'. step e p = Running p' \<longrightarrow> requests p' \<noteq> requests p \<longrightarrow>
            (\<exists>i w. requests p' = requests p @ [(i, clock p', w)] \<and> e = Resume i (clock p')) \<and>
            retryAfterTimestampMs p \<le> clock p' \<and>
            retryAfterTimestampMs p' = retryAfterTimestampMs p)"
proof -
  have "gated p"
    using unsent_gated [OF unsent_launch] assms by (rule run_gated)
  then show ?thesis
    using step_request by (simp add: gated_def) blast
qed

theorem request_starts_witness:
  "run_events deadline_extended (launch 0 two_singles) = Running waiting_again \<and>
   step (Resume 0 2700) waiting_again = Running sent_again \<and>
   requests sent_again = requests waiting_again @ [(0, 2700, Single ''@a/b'')] \<and>
   retryAfterTimestampMs waiting_again \<le> 2700 \<and>
   run_events (deadline_extended @ [Resume 0 2700]) (launch 0 two_singles) = Running sent_again \<and>
   requests sent_again ! 0 = (0, 0, Single ''@a/b'') \<and>
   requests sent_again ! 2 = (0, 2700, Single ''@a/b'') \<and>
   (0::int) + MIN_REQUEST_INTERVAL_MS \<le> 2700"
proof -
  have new: "requests sent_again = requests waiting_again @ [(0, 2700, Single ''@a/b'')]"
    by (simp add: sent_again_def waiting_again_def)
  then have ne: "requests sent_again \<noteq> requests waiting_again"
    by simp
  from request_starts_respect_interval_and_deadline [OF run_deadline_extended]
    step_sent_again ne
  have "retryAfterTimestampMs waiting_again \<le> clock sent_again"
    by blast
  then have 1: "retryAfterTimestampMs waiting_again \<le> 2700"
    by (simp add: sent_again_def)
  have r0: "requests sent_again ! 0 = (0, 0, Single ''@a/b'')"
    and r2: "requests sent_again ! 2 = (0, 2700, Single ''@a/b'')"
    by (simp_all add: sent_again_def)
  from request_starts_respect_interval_and_deadline [OF run_sent_again]
  have "(0::nat) < 2 \<longrightarrow> 2 < length (requests sent_again) \<longrightarrow>
      fst (requests sent_again ! 0) = fst (requests sent_again ! 2) \<longrightarrow>
      fst (snd (requests sent_again ! 0)) + MIN_REQUEST_INTERVAL_MS
        \<le> fst (snd (requests sent_again ! 2))"
    by blast
  then have 2: "(0::int) + MIN_REQUEST_INTERVAL_MS \<le> 2700"
    by (simp add: sent_again_def)
  from 1 2 r0 r2 new run_deadline_extended step_sent_again run_sent_again show ?thesis
    by simp
qed

text \<open>
  C6.  The first request of a run is answered at time 10 with a 429 whose
  \<open>Retry-After\<close> header is 0.  The header is there and is a whole number, so
  the deadline is to become the maximum of its value, 0, and now plus 0
  seconds: 10.  The script takes the number 0 for a missing header and makes
  the deadline 3600010, an hour later.
\<close>

theorem retry_after_zero_waits_an_hour:
  "step (Response 0 10 (Http 429 (Numeric 0) NotJson)) first_request =
     Running (rate_limited 0 (Single ''@a/b'') 10 (Numeric 0) (first_request\<lparr>clock := 10\<rparr>)) \<and>
   retryAfterTimestampMs
     (rate_limited 0 (Single ''@a/b'') 10 (Numeric 0) (first_request\<lparr>clock := 10\<rparr>)) = 3600010 \<and>
   spec_retry_deadline (retryAfterTimestampMs first_request) 10 (Numeric 0) = 10 \<and>
   retryAfterTimestampMs
     (rate_limited 0 (Single ''@a/b'') 10 (Numeric 0) (first_request\<lparr>clock := 10\<rparr>)) \<noteq>
   spec_retry_deadline (retryAfterTimestampMs first_request) 10 (Numeric 0)"
  by (simp add: first_request_def throttledFetch_settle_def rate_limited_def set_pc_def
        spec_retry_deadline_def)

text \<open>
  C7.  On a branch whose counts files are those that the state counts (as
  they are after any sequence of invocations on a fresh branch), the merge
  phase with at least one counts file ends with exit code 0 and writes
  the main file; and the main file it writes maps a key to a value exactly
  when some counts file below \<open>countsFilesSoFar\<close> has that value for the key and
  no counts file with a higher index has the key.  So every key of a shard is
  in the artifact, with the value of the highest-indexed shard that has it.
\<close>

theorem merge_takes_latest_value:
  assumes "consistent w" and "spec_dispatch w = Merge" and "state_file w = Some s"
  shows "(0 < countsFilesSoFar s \<longrightarrow>
            ended (script e w) = Some (Exit 0) \<and> main_file (disk (script e w)) \<noteq> None) \<and>
         (\<forall>c. main_file (disk (script e w)) = Some c \<longrightarrow>
            (\<forall>k v. c k = Some v \<longleftrightarrow>
               (\<exists>i < countsFilesSoFar s. \<exists>d.
                  counts_files w i = Some d \<and> d k = Some v \<and>
                  (\<forall>j d'. i < j \<longrightarrow> j < countsFilesSoFar s \<longrightarrow>
                     counts_files w j = Some d' \<longrightarrow> d' k = None))))"
proof (cases w rule: dispatch_cases)
  case (merge s')
  with assms(3) have s': "s' = s" by simp
  note m = merge [unfolded s']
  from assms(1,3) have dom: "dom (counts_files w) = {..<countsFilesSoFar s}"
    by (simp add: consistent_def)
  show ?thesis
  proof (cases "countsFilesSoFar s")
    case 0
    with dom have "counts_files w 0 = None"
      by auto
    then have "merge_counts (counts_files w) (countsFilesSoFar s) = None"
      by (simp add: merge_counts_def)
    with m 0 show ?thesis
      by (simp add: script_merge)
  next
    case (Suc n)
    with dom have "\<forall>i < Suc n. counts_files w i \<noteq> None"
      by (metis domIff lessThan_iff)
    from merge_counts_readable [OF this] obtain c where
      c: "merge_counts (counts_files w) (Suc n) = Some c"
      by auto
    have key: "c k = Some v \<longleftrightarrow>
        (\<exists>i < Suc n. \<exists>d.
           counts_files w i = Some d \<and> d k = Some v \<and>
           (\<forall>j d'. i < j \<longrightarrow> j < Suc n \<longrightarrow> counts_files w j = Some d' \<longrightarrow> d' k = None))"
      for k v
      unfolding merge_counts_latest [OF c] by (rule latest_Some_iff)
    from c m Suc have "script e w =
        \<lparr>executed = [Merge], ended = Some (Exit 0), disk = w\<lparr>main_file := Some c\<rparr>\<rparr>"
      by (simp add: script_merge)
    with key Suc show ?thesis
      by simp
  qed
qed (use assms in auto)

theorem merge_witness:
  "consistent two_files_world \<and> spec_dispatch two_files_world = Merge \<and>
   ended (script not_found_env two_files_world) = Some (Exit 0) \<and>
   (\<exists>c. main_file (disk (script not_found_env two_files_world)) = Some c \<and>
        c ''a'' = Some (JNum 1) \<and> c ''b'' = Some (JNum 3))"
proof -
  have 1: "consistent two_files_world"
    by (auto simp: consistent_def two_files_world_def empty_state_def split: if_splits)
  have 2: "spec_dispatch two_files_world = Merge"
    by (simp add: spec_dispatch_def two_files_world_def empty_state_def)
  have 3: "state_file two_files_world = Some (empty_state\<lparr>countsFilesSoFar := 2\<rparr>)"
    by (simp add: two_files_world_def)
  note m = merge_takes_latest_value [OF 1 2 3, of not_found_env]
  from m have ex: "ended (script not_found_env two_files_world) = Some (Exit 0)"
    and "main_file (disk (script not_found_env two_files_world)) \<noteq> None"
    by (simp_all add: empty_state_def)
  then obtain c where c: "main_file (disk (script not_found_env two_files_world)) = Some c"
    by auto
  with m have iff: "c k = Some v \<longleftrightarrow>
      (\<exists>i < 2. \<exists>d. counts_files two_files_world i = Some d \<and> d k = Some v \<and>
         (\<forall>j d'. i < j \<longrightarrow> j < 2 \<longrightarrow> counts_files two_files_world j = Some d' \<longrightarrow> d' k = None))"
    for k v
    by (simp add: empty_state_def)
  have "c ''a'' = Some (JNum 1)"
    unfolding iff by (rule exI [of _ 0]) (auto simp: two_files_world_def)
  moreover have "c ''b'' = Some (JNum 3)"
    unfolding iff by (rule exI [of _ 1]) (auto simp: two_files_world_def)
  ultimately show ?thesis
    using 1 2 ex c by simp
qed

text \<open>
  C8.  A single-package query answered with 404 changes nothing: the name goes
  to no list, no count is recorded and no error is counted.  Answered with
  403, the name is appended to \<open>status403Packages\<close> and to no queue.  Any other
  status but 200 puts the name back on the singles queue and counts an
  error, which ends the process when the ceiling is reached.  A name on
  \<open>status403Packages\<close> (and nowhere else) stays there for the rest of the run,
  and no later request of the run asks for it.
\<close>

theorem single_package_status_handling:
  "fetchCountForSinglePackage name (Http 404 h body) p = Inr p \<and>
   fetchCountForSinglePackage name (Http 403 h body) p =
     Inr (p\<lparr>st := (st p)\<lparr>status403Packages := status403Packages (st p) @ [name]\<rparr>\<rparr>) \<and>
   (status \<noteq> 200 \<and> status \<noteq> 403 \<and> status \<noteq> 404 \<longrightarrow>
      fetchCountForSinglePackage name (Http status h body) p =
        (if nRequestErrors p + 1 \<ge> MAX_REQUEST_ERRORS then Inl Exit1
         else Inr (p\<lparr>st := (st p)\<lparr>singlePackages := singlePackages (st p) @ [name]\<rparr>,
                     nRequestErrors := nRequestErrors p + 1\<rparr>))) \<and>
   (name \<in> set (status403Packages (st p)) \<and> count (tracked p) name \<le> 1 \<longrightarrow>
      (\<forall>es p'. run_events es p = Running p' \<longrightarrow>
         name \<in> set (status403Packages (st p')) \<and>
         (\<exists>new. requests p' = requests p @ new \<and>
            (\<forall>x \<in> set new. name \<notin> set (work_ids (snd (snd x)))))))"
  using run_blocked_unrequested [of _ p _ name]
  by (simp add: fetchCountForSinglePackage_def push_403_def push_single_def
        recordUnexpectedError_def Let_def)

theorem single_package_status_witness:
  "(500::nat) \<noteq> 200 \<and> (500::nat) \<noteq> 403 \<and> (500::nat) \<noteq> 404 \<and>
   fetchCountForSinglePackage ''@a/b'' (Http 500 Absent NotJson) (fresh_pool 0 empty_state) =
     Inr ((fresh_pool 0 empty_state)\<lparr>st := empty_state\<lparr>singlePackages := [''@a/b'']\<rparr>,
                                     nRequestErrors := 1\<rparr>) \<and>
   run_events [Resume 0 0, Response 0 10 (Http 403 Absent NotJson)] (launch 0 two_singles) =
     Running one_blocked \<and>
   ''@a/b'' \<in> set (status403Packages (st one_blocked)) \<and>
   count (tracked one_blocked) ''@a/b'' \<le> 1 \<and>
   run_events [Resume 1 20] one_blocked = Running one_blocked_later \<and>
   ''@a/b'' \<in> set (status403Packages (st one_blocked_later)) \<and>
   requests one_blocked_later = requests one_blocked @ [(1, 20, Single ''@c/d'')] \<and>
   ''@a/b'' \<notin> set (work_ids (Single ''@c/d''))"
proof -
  have 1: "''@a/b'' \<in> set (status403Packages (st one_blocked))"
    by (simp add: one_blocked_def)
  have 2: "count (tracked one_blocked) ''@a/b'' \<le> 1"
    by (simp add: tracked_def state_ids_def one_blocked_def empty_state_def)
  have 3: "requests one_blocked_later = requests one_blocked @ [(1, 20, Single ''@c/d'')]"
    by (simp add: one_blocked_later_def one_blocked_def)
  from single_package_status_handling
          [of "''@a/b''" Absent NotJson "fresh_pool 0 empty_state" 500]
  have 4: "fetchCountForSinglePackage ''@a/b'' (Http 500 Absent NotJson) (fresh_pool 0 empty_state) =
     Inr ((fresh_pool 0 empty_state)\<lparr>st := empty_state\<lparr>singlePackages := [''@a/b'']\<rparr>,
                                     nRequestErrors := 1\<rparr>)"
    by (simp add: fresh_pool_def empty_state_def MAX_REQUEST_ERRORS_def)
  from single_package_status_handling [of "''@a/b''" Absent NotJson one_blocked 500] 1 2
    run_one_blocked_later
  have "''@a/b'' \<in> set (status403Packages (st one_blocked_later)) \<and>
      (\<exists>new. requests one_blocked_later = requests one_blocked @ new \<and>
         (\<forall>x \<in> set new. ''@a/b'' \<notin> set (work_ids (snd (snd x)))))"
    by blast
  with 3 have "''@a/b'' \<in> set (status403Packages (st one_blocked_later))"
    and "''@a/b'' \<notin> set (work_ids (Single ''@c/d''))"
    by auto
  with 1 2 3 4 run_one_blocked run_one_blocked_later show ?thesis
    by simp
qed




text \<open>
  C10.  When the number of unexpected error responses reaches the ceiling in
  the fetch phase, the process ends with exit code 1 and the files are what
  they were when the invocation started: no counts file is written and the
  state file is not touched.
\<close>

theorem ceiling_abort_leaves_checkpoint:
  assumes "spec_dispatch w = Fetch"
    and "fetch_errors e w = MAX_REQUEST_ERRORS"
  shows "script e w = \<lparr>executed = [Fetch], ended = Some (Exit 1), disk = w\<rparr>"
proof (cases w rule: dispatch_cases)
  case (fetch s)
  with assms(2) have "run_events (schedule e) (launch (started e) s) = ProcessExit"
    by (simp add: ceiling_iff_exit fetch_errors_def)
  with fetch show ?thesis
    by (simp add: script_fetch)
qed (use assms in auto)

theorem ceiling_abort_witness:
  "spec_dispatch one_single_world = Fetch \<and>
   fetch_errors failing_env one_single_world = MAX_REQUEST_ERRORS \<and>
   script failing_env one_single_world =
     \<lparr>executed = [Fetch], ended = Some (Exit 1), disk = one_single_world\<rparr>"
proof -
  have "fetch_errors failing_env one_single_world = MAX_REQUEST_ERRORS"
    using failing_schedule_exits ceiling_iff_exit [of failing_schedule 0 one_single]
    by (simp add: fetch_errors_def one_single_world_def failing_env_def)
  with ceiling_abort_leaves_checkpoint [OF dispatch_one_single this] dispatch_one_single
  show ?thesis by simp
qed

end
